theory Spec2Isabelle
  imports Complex_Main "HOL-Library.Word" "HOL-Library.Monad_Syntax" "HOL-Library.Log_Nat"
    "HOL-Library.Code_Target_Numeral"
begin

unbundle bit_operations_syntax

section \<open>The skip list engine of skiplist\_kv\_store.go\<close>

text \<open>
  The Go file keeps its elements in garbage-collected memory and links them by pointers.
  The model keeps them in an arena: the heap is a list of elements, a pointer is an index
  into it, \<open>nil\<close> is \<open>None\<close>, and allocation appends a cell. A \<open>[]byte\<close> is a list of
  characters (a \<open>char\<close> is one byte). An operation that does not return
  normally (a nil dereference, an index out of range, a loop that never ends) has the value
  \<open>None\<close>. The locks are left out: every operation is modelled as run alone, start to end.
\<close>

type_synonym bytes = "char list"
type_synonym ptr = nat

text \<open>
  A \<open>float64\<close> is a finite number, an infinity or NaN. The two zeros compare equal and
  are one value here; the finite values are taken from the reals, of which the floats
  are a part. \<open>flt\<close>, \<open>feq\<close> and \<open>fle\<close> are Go's \<open><\<close>, \<open>==\<close> and \<open><=\<close> on \<open>float64\<close>:
  every comparison with NaN is false, so \<open>!=\<close> with NaN is true.
\<close>

datatype float64 = Finite real | PosInf | NegInf | NaN

fun flt :: "float64 \<Rightarrow> float64 \<Rightarrow> bool" where
  "flt (Finite a) (Finite b) = (a < b)"
| "flt (Finite a) PosInf = True"
| "flt NegInf (Finite b) = True"
| "flt NegInf PosInf = True"
| "flt a b = False"

definition feq :: "float64 \<Rightarrow> float64 \<Rightarrow> bool" where
  "feq a b = (a \<noteq> NaN \<and> a = b)"

definition fle :: "float64 \<Rightarrow> float64 \<Rightarrow> bool" where
  "fle a b = (flt a b \<or> feq a b)"

record Element =
  Key :: bytes
  Value :: bytes
  Score :: float64
  Next :: "ptr option list"
  Prev :: "ptr option"

type_synonym heap = "Element list"

record SkipList =
  heap :: heap
  head :: ptr
  tail :: "ptr option"
  length_sl :: int
  level :: nat
  randSrc :: "nat \<Rightarrow> real"

definition MaxLevel :: nat where
  "MaxLevel = 32"

definition Probability :: real where
  "Probability = 0.5"

text \<open>Reading through a pointer and indexing a slice, both with Go's run-time checks.\<close>

definition deref :: "heap \<Rightarrow> ptr \<Rightarrow> Element option" where
  "deref h p = (if p < length h then Some (h ! p) else None)"

definition index :: "'a list \<Rightarrow> nat \<Rightarrow> 'a option" where
  "index xs i = (if i < length xs then Some (xs ! i) else None)"

text \<open>\<open>bytes.Compare\<close>: lexicographic on unsigned bytes, with result -1, 0 or 1.\<close>

fun bytes_Compare :: "bytes \<Rightarrow> bytes \<Rightarrow> int" where
  "bytes_Compare [] [] = 0"
| "bytes_Compare [] (b # bs) = -1"
| "bytes_Compare (a # as) [] = 1"
| "bytes_Compare (a # as) (b # bs) =
     (if (of_char a :: nat) < of_char b then -1
      else if (of_char b :: nat) < of_char a then 1
      else bytes_Compare as bs)"

definition bytes_Equal :: "bytes \<Rightarrow> bytes \<Rightarrow> bool" where
  "bytes_Equal a b = (a = b)"

fun bytes_HasPrefix :: "bytes \<Rightarrow> bytes \<Rightarrow> bool" where
  "bytes_HasPrefix s [] = True"
| "bytes_HasPrefix [] (p # ps) = False"
| "bytes_HasPrefix (c # cs) (p # ps) = (c = p \<and> bytes_HasPrefix cs ps)"

text \<open>\<open>NewElement\<close> allocates: the new cell is appended, its address is the old size.\<close>

definition NewElement :: "heap \<Rightarrow> bytes \<Rightarrow> bytes \<Rightarrow> float64 \<Rightarrow> nat \<Rightarrow> heap \<times> ptr" where
  "NewElement h key val score lvl =
     (h @ [\<lparr>Key = key, Value = val, Score = score, Next = replicate lvl None, Prev = None\<rparr>],
      length h)"

definition NewSkipList :: "(nat \<Rightarrow> real) \<Rightarrow> SkipList" where
  "NewSkipList rs =
     (let (h, hp) = NewElement [] [] [] (Finite (-1)) MaxLevel
      in \<lparr>heap = h, head = hp, tail = None, length_sl = 0, level = 1, randSrc = rs\<rparr>)"

text \<open>
  \<open>randomLevel\<close>: the random source is a stream of draws from [0, 1); a draw is consumed
  only while \<open>level < MaxLevel\<close>, as the short-circuit condition of the loop has it.
\<close>

function randomLevel_loop :: "nat \<Rightarrow> (nat \<Rightarrow> real) \<Rightarrow> nat \<times> (nat \<Rightarrow> real)" where
  "randomLevel_loop lvl rs =
     (if lvl < MaxLevel then
        (if rs 0 < Probability then randomLevel_loop (lvl + 1) (\<lambda>n. rs (Suc n))
         else (lvl, (\<lambda>n. rs (Suc n))))
      else (lvl, rs))"
  by pat_completeness auto
termination
  by (relation "measure (\<lambda>(lvl, rs). MaxLevel - lvl)") auto

definition randomLevel :: "(nat \<Rightarrow> real) \<Rightarrow> nat \<times> (nat \<Rightarrow> real)" where
  "randomLevel rs = randomLevel_loop 1 rs"

text \<open>
  The search loop shared by \<open>Insert\<close>, \<open>Delete\<close>, \<open>Search\<close> and \<open>Range\<close>: at level \<open>i\<close>,
  move right while the next element exists and satisfies the loop condition \<open>lt\<close>.
\<close>

partial_function (option) advance :: "heap \<Rightarrow> (Element \<Rightarrow> bool) \<Rightarrow> nat \<Rightarrow> ptr \<Rightarrow> ptr option" where
  "advance h lt i x =
     do {
       ex \<leftarrow> deref h x;
       nx \<leftarrow> index (Next ex) i;
       case nx of
         None \<Rightarrow> Some x
       | Some y \<Rightarrow>
           do {
             ey \<leftarrow> deref h y;
             if lt ey then advance h lt i y else Some x
           }
     }"

text \<open>
  The outer loop \<open>for i := sl.level - 1; i >= 0; i--\<close>; the third argument counts the
  levels still to visit, so \<open>Suc i\<close> visits level \<open>i\<close>. \<open>update[i] = x\<close> is recorded.
\<close>

fun walk :: "heap \<Rightarrow> (Element \<Rightarrow> bool) \<Rightarrow> nat \<Rightarrow> ptr \<Rightarrow> ptr option list
    \<Rightarrow> (ptr \<times> ptr option list) option" where
  "walk h lt 0 x update = Some (x, update)"
| "walk h lt (Suc i) x update =
     do {
       x' \<leftarrow> advance h lt i x;
       _ \<leftarrow> index update i;
       walk h lt i x' (update[i := Some x'])
     }"

text \<open>The loop condition of \<open>Insert\<close>, \<open>Delete\<close> and \<open>Search\<close>: (score, key) order.\<close>

definition before :: "float64 \<Rightarrow> bytes \<Rightarrow> Element \<Rightarrow> bool" where
  "before score key e =
     (flt (Score e) score \<or> (feq (Score e) score \<and> bytes_Compare (Key e) key < 0))"


text \<open>\<open>Search\<close> and \<open>Range\<close> run the same descent without an update vector.\<close>

fun descend :: "heap \<Rightarrow> (Element \<Rightarrow> bool) \<Rightarrow> nat \<Rightarrow> ptr \<Rightarrow> ptr option" where
  "descend h lt 0 x = Some x"
| "descend h lt (Suc i) x =
     do {
       x' \<leftarrow> advance h lt i x;
       descend h lt i x'
     }"

subsection \<open>Insert\<close>

text \<open>\<open>for i := sl.level; i < level; i++ { update[i] = sl.head }\<close>\<close>

function Insert_fill :: "ptr option list \<Rightarrow> ptr \<Rightarrow> nat \<Rightarrow> nat \<Rightarrow> ptr option list option" where
  "Insert_fill update hp i lvl =
     (if i < lvl then
        do {
          _ \<leftarrow> index update i;
          Insert_fill (update[i := Some hp]) hp (i + 1) lvl
        }
      else Some update)"
  by pat_completeness auto
termination
  by (relation "measure (\<lambda>(update, hp, i, lvl). lvl - i)") auto

text \<open>
  \<open>for i := 0; i < level; i++ { newElement.Next[i] = update[i].Next[i];
  update[i].Next[i] = newElement }\<close>
\<close>

function Insert_splice :: "heap \<Rightarrow> ptr option list \<Rightarrow> ptr \<Rightarrow> nat \<Rightarrow> nat \<Rightarrow> heap option" where
  "Insert_splice h update n i lvl =
     (if i < lvl then
        do {
          uo \<leftarrow> index update i;
          u \<leftarrow> uo;
          eu \<leftarrow> deref h u;
          nu \<leftarrow> index (Next eu) i;
          en \<leftarrow> deref h n;
          _ \<leftarrow> index (Next en) i;
          let h1 = h[n := en\<lparr>Next := (Next en)[i := nu]\<rparr>];
          eu1 \<leftarrow> deref h1 u;
          _ \<leftarrow> index (Next eu1) i;
          Insert_splice (h1[u := eu1\<lparr>Next := (Next eu1)[i := Some n]\<rparr>]) update n (i + 1) lvl
        }
      else Some h)"
  by pat_completeness auto
termination
  by (relation "measure (\<lambda>(h, update, n, i, lvl). lvl - i)") auto

text \<open>The part of \<open>Insert\<close> after the test for an existing (score, key).\<close>

definition Insert_new :: "SkipList \<Rightarrow> bytes \<Rightarrow> bytes \<Rightarrow> float64 \<Rightarrow> ptr option list
    \<Rightarrow> (SkipList \<times> ptr) option" where
  "Insert_new sl key val score update =
     (let (lvl, rs) = randomLevel (randSrc sl) in
      do {
        update1 \<leftarrow> (if lvl > level sl then Insert_fill update (head sl) (level sl) lvl
                     else Some update);
        let level1 = (if lvl > level sl then lvl else level sl);
        let (h1, n) = NewElement (heap sl) key val score lvl;
        h2 \<leftarrow> Insert_splice h1 update1 n 0 lvl;
        u0 \<leftarrow> index update1 0;
        h3 \<leftarrow> (if u0 \<noteq> Some (head sl)
                then do { en \<leftarrow> deref h2 n; Some (h2[n := en\<lparr>Prev := u0\<rparr>]) }
                else Some h2);
        en \<leftarrow> deref h3 n;
        n0 \<leftarrow> index (Next en) 0;
        case n0 of
          Some y \<Rightarrow>
            do {
              ey \<leftarrow> deref h3 y;
              Some (sl\<lparr>heap := h3[y := ey\<lparr>Prev := Some n\<rparr>], length_sl := length_sl sl + 1,
                       level := level1, randSrc := rs\<rparr>, n)
            }
        | None \<Rightarrow>
            Some (sl\<lparr>heap := h3, tail := Some n, length_sl := length_sl sl + 1,
                     level := level1, randSrc := rs\<rparr>, n)
      })"

definition Insert :: "SkipList \<Rightarrow> bytes \<Rightarrow> bytes \<Rightarrow> float64 \<Rightarrow> (SkipList \<times> ptr) option" where
  "Insert sl key val score =
     do {
       (x, update) \<leftarrow> walk (heap sl) (before score key) (level sl) (head sl)
                         (replicate MaxLevel None);
       ex \<leftarrow> deref (heap sl) x;
       nx \<leftarrow> index (Next ex) 0;
       hit \<leftarrow> (case nx of
                 None \<Rightarrow> Some None
               | Some y \<Rightarrow>
                   do {
                     ey \<leftarrow> deref (heap sl) y;
                     Some (if feq (Score ey) score \<and> bytes_Equal (Key ey) key then Some y else None)
                   });
       case hit of
         Some y \<Rightarrow>
           do {
             ey \<leftarrow> deref (heap sl) y;
             Some (sl\<lparr>heap := (heap sl)[y := ey\<lparr>Value := val\<rparr>]\<rparr>, y)
           }
       | None \<Rightarrow> Insert_new sl key val score update
     }"

subsection \<open>Delete\<close>

text \<open>
  \<open>for i := 0; i < sl.level; i++ { if update[i].Next[i] != x { break };
  update[i].Next[i] = x.Next[i] }\<close>
\<close>

function Delete_unsplice :: "heap \<Rightarrow> ptr option list \<Rightarrow> ptr \<Rightarrow> nat \<Rightarrow> nat \<Rightarrow> heap option" where
  "Delete_unsplice h update x i lvl =
     (if i < lvl then
        do {
          uo \<leftarrow> index update i;
          u \<leftarrow> uo;
          eu \<leftarrow> deref h u;
          nu \<leftarrow> index (Next eu) i;
          if nu \<noteq> Some x then Some h
          else
            do {
              ex \<leftarrow> deref h x;
              nx \<leftarrow> index (Next ex) i;
              Delete_unsplice (h[u := eu\<lparr>Next := (Next eu)[i := nx]\<rparr>]) update x (i + 1) lvl
            }
        }
      else Some h)"
  by pat_completeness auto
termination
  by (relation "measure (\<lambda>(h, update, x, i, lvl). lvl - i)") auto

text \<open>\<open>for sl.level > 1 && sl.head.Next[sl.level-1] == nil { sl.level-- }\<close>\<close>

function Delete_shrink :: "heap \<Rightarrow> ptr \<Rightarrow> nat \<Rightarrow> nat option" where
  "Delete_shrink h hp lvl =
     (if lvl > 1 then
        do {
          eh \<leftarrow> deref h hp;
          t \<leftarrow> index (Next eh) (lvl - 1);
          if t = None then Delete_shrink h hp (lvl - 1) else Some lvl
        }
      else Some lvl)"
  by pat_completeness auto
termination
  by (relation "measure (\<lambda>(h, hp, lvl). lvl)") auto

definition Delete :: "SkipList \<Rightarrow> bytes \<Rightarrow> float64 \<Rightarrow> (SkipList \<times> bool) option" where
  "Delete sl key score =
     do {
       (x0, update) \<leftarrow> walk (heap sl) (before score key) (level sl) (head sl)
                          (replicate MaxLevel None);
       ex0 \<leftarrow> deref (heap sl) x0;
       xo \<leftarrow> index (Next ex0) 0;
       absent \<leftarrow> (case xo of
                    None \<Rightarrow> Some True
                  | Some x \<Rightarrow>
                      do {
                        ex \<leftarrow> deref (heap sl) x;
                        Some (\<not> feq (Score ex) score \<or> \<not> bytes_Equal (Key ex) key)
                      });
       if absent then Some (sl, False)
       else
         do {
           x \<leftarrow> xo;
           h1 \<leftarrow> Delete_unsplice (heap sl) update x 0 (level sl);
           ex \<leftarrow> deref h1 x;
           n0 \<leftarrow> index (Next ex) 0;
           (h2, tail2) \<leftarrow> (case n0 of
                             Some y \<Rightarrow>
                               do {
                                 ey \<leftarrow> deref h1 y;
                                 Some (h1[y := ey\<lparr>Prev := Prev ex\<rparr>], tail sl)
                               }
                           | None \<Rightarrow> Some (h1, Prev ex));
           lvl \<leftarrow> Delete_shrink h2 (head sl) (level sl);
           Some (sl\<lparr>heap := h2, tail := tail2, length_sl := length_sl sl - 1, level := lvl\<rparr>,
                 True)
         }
     }"

subsection \<open>Search, Range, Length, First, Last\<close>

definition Search :: "SkipList \<Rightarrow> bytes \<Rightarrow> float64 \<Rightarrow> ptr option option" where
  "Search sl key score =
     do {
       x0 \<leftarrow> descend (heap sl) (before score key) (level sl) (head sl);
       ex0 \<leftarrow> deref (heap sl) x0;
       xo \<leftarrow> index (Next ex0) 0;
       case xo of
         None \<Rightarrow> Some None
       | Some x \<Rightarrow>
           do {
             ex \<leftarrow> deref (heap sl) x;
             Some (if feq (Score ex) score \<and> bytes_Equal (Key ex) key then Some x else None)
           }
     }"

partial_function (option) Range_collect ::
    "heap \<Rightarrow> float64 \<Rightarrow> int \<Rightarrow> ptr option \<Rightarrow> ptr list \<Rightarrow> ptr list option" where
  "Range_collect h maxScore limit xo result =
     (case xo of
        None \<Rightarrow> Some result
      | Some x \<Rightarrow>
          do {
            ex \<leftarrow> deref h x;
            if fle (Score ex) maxScore then
              (if limit > 0 \<and> int (length (result @ [x])) \<ge> limit then Some (result @ [x])
               else
                 do {
                   nx \<leftarrow> index (Next ex) 0;
                   Range_collect h maxScore limit nx (result @ [x])
                 })
            else Some result
          })"

definition Range :: "SkipList \<Rightarrow> float64 \<Rightarrow> float64 \<Rightarrow> int \<Rightarrow> ptr list option" where
  "Range sl minScore maxScore limit =
     do {
       x0 \<leftarrow> descend (heap sl) (\<lambda>e. flt (Score e) minScore) (level sl) (head sl);
       ex0 \<leftarrow> deref (heap sl) x0;
       xo \<leftarrow> index (Next ex0) 0;
       Range_collect (heap sl) maxScore limit xo []
     }"

definition Length :: "SkipList \<Rightarrow> int" where
  "Length sl = length_sl sl"

definition First :: "SkipList \<Rightarrow> ptr option option" where
  "First sl = do { eh \<leftarrow> deref (heap sl) (head sl); index (Next eh) 0 }"

definition Last :: "SkipList \<Rightarrow> ptr option" where
  "Last sl = tail sl"

text \<open>
  The traversal loop of \<open>visualize\<close> (and, at level 0, of \<open>Keys\<close> and \<open>SizeActive\<close>):
  \<open>for node != nil { ...; node = node.Next[i] }\<close>, returning the elements visited.
\<close>

partial_function (option) traverse :: "heap \<Rightarrow> nat \<Rightarrow> ptr option \<Rightarrow> ptr list option" where
  "traverse h i node =
     (case node of
        None \<Rightarrow> Some []
      | Some p \<Rightarrow>
          do {
            e \<leftarrow> deref h p;
            nx \<leftarrow> index (Next e) i;
            rest \<leftarrow> traverse h i nx;
            Some (p # rest)
          })"

definition level_list :: "SkipList \<Rightarrow> nat \<Rightarrow> ptr list option" where
  "level_list sl i =
     do {
       eh \<leftarrow> deref (heap sl) (head sl);
       first \<leftarrow> index (Next eh) i;
       traverse (heap sl) i first
     }"


section \<open>The key-value store\<close>

text \<open>
  \<open>hashBytes\<close> is FNV-1a on \<open>uint64\<close>. The conversion \<open>float64(hash)\<close> rounds to the
  nearest number with a 53-bit significand, ties to even; no \<open>uint64\<close> is out of range.
\<close>

definition hashBytes :: "bytes \<Rightarrow> 64 word" where
  "hashBytes data =
     fold (\<lambda>b hash. (hash XOR of_char b) * 1099511628211) data 14695981039346656037"

definition float64_of_uint64 :: "64 word \<Rightarrow> real" where
  "float64_of_uint64 w =
     (let n = unat w; e = floorlog 2 n - 53; q = n div 2 ^ e; r = n mod 2 ^ e
      in if e = 0 then real n
         else if 2 ^ e < 2 * r \<or> (2 * r = 2 ^ e \<and> odd q) then real ((q + 1) * 2 ^ e)
         else real (q * 2 ^ e))"

definition score_of :: "bytes \<Rightarrow> float64" where
  "score_of key = Finite (float64_of_uint64 (hashBytes key))"

text \<open>
  Instants and durations are integers (nanoseconds); an operation that reads the clock
  takes the instant \<open>now\<close> as an argument. \<open>spawned\<close> holds the keys of the goroutines
  \<open>go s.Delete(key)\<close> that have been started and have not run yet. The stop channel and the
  cleaner goroutine are not part of the model.
\<close>

record SkiplistKVStore =
  data :: SkipList
  ttlData :: "bytes \<Rightarrow> int option"
  spawned :: "bytes list"

datatype error = ErrKeyNotFound | ErrKeyExists

definition NewSkiplistKVStore :: "(nat \<Rightarrow> real) \<Rightarrow> SkiplistKVStore" where
  "NewSkiplistKVStore rs = \<lparr>data = NewSkipList rs, ttlData = Map.empty, spawned = []\<rparr>"

definition Set :: "SkiplistKVStore \<Rightarrow> bytes \<Rightarrow> bytes \<Rightarrow> SkiplistKVStore option" where
  "Set s key val =
     do {
       (sl, _) \<leftarrow> Insert (data s) key val (score_of key);
       Some (s\<lparr>data := sl, ttlData := (ttlData s)(key := None)\<rparr>)
     }"

definition SetWithTTL :: "SkiplistKVStore \<Rightarrow> int \<Rightarrow> bytes \<Rightarrow> bytes \<Rightarrow> int
    \<Rightarrow> SkiplistKVStore option" where
  "SetWithTTL s now key val ttl =
     do {
       (sl, _) \<leftarrow> Insert (data s) key val (score_of key);
       Some (s\<lparr>data := sl, ttlData := (ttlData s)(key \<mapsto> now + ttl)\<rparr>)
     }"

definition Get :: "SkiplistKVStore \<Rightarrow> int \<Rightarrow> bytes
    \<Rightarrow> (SkiplistKVStore \<times> (error + bytes)) option" where
  "Get s now key =
     (if (case ttlData s key of Some expiry \<Rightarrow> expiry < now | None \<Rightarrow> False)
      then Some (s\<lparr>spawned := spawned s @ [key]\<rparr>, Inl ErrKeyNotFound)
      else
        do {
          elem \<leftarrow> Search (data s) key (score_of key);
          case elem of
            None \<Rightarrow> Some (s, Inl ErrKeyNotFound)
          | Some p \<Rightarrow> do { e \<leftarrow> deref (heap (data s)) p; Some (s, Inr (Value e)) }
        })"

definition KV_Delete :: "SkiplistKVStore \<Rightarrow> bytes \<Rightarrow> (SkiplistKVStore \<times> bool) option" where
  "KV_Delete s key =
     do {
       (sl, result) \<leftarrow> Delete (data s) key (score_of key);
       Some (s\<lparr>data := sl, ttlData := (ttlData s)(key := None)\<rparr>, result)
     }"

definition GetTTL :: "SkiplistKVStore \<Rightarrow> int \<Rightarrow> bytes \<Rightarrow> SkiplistKVStore \<times> int \<times> bool" where
  "GetTTL s now key =
     (case ttlData s key of
        None \<Rightarrow> (s, 0, False)
      | Some expiry \<Rightarrow>
          (let remaining = expiry - now
           in if remaining \<le> 0 then (s, 0, False) else (s, remaining, True)))"

definition Size :: "SkiplistKVStore \<Rightarrow> int" where
  "Size s = Length (data s)"

text \<open>The loop of \<open>Scan\<close>; \<open>result\<close> is the Go map being filled, \<open>count\<close> its counter.\<close>

partial_function (option) Scan_loop ::
    "heap \<Rightarrow> (bytes \<Rightarrow> int option) \<Rightarrow> int \<Rightarrow> bytes \<Rightarrow> int \<Rightarrow> ptr option \<Rightarrow> int
     \<Rightarrow> (bytes \<Rightarrow> bytes option) \<Rightarrow> (bytes \<Rightarrow> bytes option) option" where
  "Scan_loop h ttl now prefix limit current count result =
     (case current of
        None \<Rightarrow> Some result
      | Some c \<Rightarrow>
          if limit \<le> 0 \<or> count < limit then
            do {
              ec \<leftarrow> deref h c;
              nx \<leftarrow> index (Next ec) 0;
              if bytes_HasPrefix (Key ec) prefix
                 \<and> (case ttl (Key ec) of None \<Rightarrow> True | Some expiry \<Rightarrow> now < expiry)
              then Scan_loop h ttl now prefix limit nx (count + 1) (result(Key ec \<mapsto> Value ec))
              else Scan_loop h ttl now prefix limit nx count result
            }
          else Some result)"

definition Scan :: "SkiplistKVStore \<Rightarrow> int \<Rightarrow> bytes \<Rightarrow> int \<Rightarrow> (bytes \<Rightarrow> bytes option) option" where
  "Scan s now prefix limit =
     do {
       current \<leftarrow> First (data s);
       Scan_loop (heap (data s)) (ttlData s) now prefix limit current 0 Map.empty
     }"

section \<open>Sequences of operations\<close>

datatype sl_op = OpInsert bytes bytes float64 | OpDelete bytes float64

fun run_ops :: "SkipList \<Rightarrow> sl_op list \<Rightarrow> SkipList option" where
  "run_ops sl [] = Some sl"
| "run_ops sl (OpInsert key val score # ops) =
     do { (sl', _) \<leftarrow> Insert sl key val score; run_ops sl' ops }"
| "run_ops sl (OpDelete key score # ops) =
     do { (sl', _) \<leftarrow> Delete sl key score; run_ops sl' ops }"

section \<open>The representation invariant\<close>

text \<open>
  \<open>path h i s qs t\<close>: following the level-\<open>i\<close> forward pointers from the pointer value \<open>s\<close>
  visits exactly the cells \<open>qs\<close>, in this order, and arrives at \<open>t\<close>.
\<close>

definition height :: "heap \<Rightarrow> ptr \<Rightarrow> nat" where
  "height h p = length (Next (h ! p))"

definition nxt :: "heap \<Rightarrow> ptr \<Rightarrow> nat \<Rightarrow> ptr option" where
  "nxt h p i = Next (h ! p) ! i"

fun path :: "heap \<Rightarrow> nat \<Rightarrow> ptr option \<Rightarrow> ptr list \<Rightarrow> ptr option \<Rightarrow> bool" where
  "path h i s [] t = (s = t)"
| "path h i s (q # qs) t =
     (s = Some q \<and> q < length h \<and> i < height h q \<and> path h i (nxt h q i) qs t)"

definition on_level :: "heap \<Rightarrow> nat \<Rightarrow> ptr list \<Rightarrow> ptr list" where
  "on_level h i ps = filter (\<lambda>p. i < height h p) ps"

definition elt_less :: "Element \<Rightarrow> Element \<Rightarrow> bool" where
  "elt_less a b = before (Score b) (Key b) a"

text \<open>
  \<open>sl_inv sl ps\<close>: \<open>ps\<close> are the cells of the real elements in list order. The head has
  \<open>MaxLevel\<close> forward slots; every element has between 1 and \<open>level\<close> of them; the elements
  are strictly increasing in (score, key); and at every level the chain from the head is
  the sublist of the elements that are tall enough.
\<close>

definition sl_inv :: "SkipList \<Rightarrow> ptr list \<Rightarrow> bool" where
  "sl_inv sl ps =
     (head sl < length (heap sl) \<and> height (heap sl) (head sl) = MaxLevel
      \<and> 1 \<le> level sl \<and> level sl \<le> MaxLevel
      \<and> distinct ps \<and> head sl \<notin> set ps
      \<and> (\<forall>p \<in> set ps. p < length (heap sl) \<and> 1 \<le> height (heap sl) p
            \<and> height (heap sl) p \<le> level sl)
      \<and> sorted_wrt (\<lambda>p q. elt_less (heap sl ! p) (heap sl ! q)) ps
      \<and> (\<forall>i < MaxLevel. path (heap sl) i (nxt (heap sl) (head sl) i)
            (on_level (heap sl) i ps) None)
      \<and> length_sl sl = int (length ps))"

text \<open>
  \<open>sl_shape sl ps\<close> is \<open>sl_inv sl ps\<close> without the order of the elements: the cells, their
  heights and the chains of every level. It is what a list keeps when an element with
  the score NaN, which compares false with everything, has been put in.
\<close>

definition sl_shape :: "SkipList \<Rightarrow> ptr list \<Rightarrow> bool" where
  "sl_shape sl ps =
     (head sl < length (heap sl) \<and> height (heap sl) (head sl) = MaxLevel
      \<and> 1 \<le> level sl \<and> level sl \<le> MaxLevel
      \<and> distinct ps \<and> head sl \<notin> set ps
      \<and> (\<forall>p \<in> set ps. p < length (heap sl) \<and> 1 \<le> height (heap sl) p
            \<and> height (heap sl) p \<le> level sl)
      \<and> (\<forall>i < MaxLevel. path (heap sl) i (nxt (heap sl) (head sl) i)
            (on_level (heap sl) i ps) None)
      \<and> length_sl sl = int (length ps))"

text \<open>No element of the list has the score NaN; no \<open>Insert\<close> of a sequence has it.\<close>

definition no_NaN :: "heap \<Rightarrow> ptr list \<Rightarrow> bool" where
  "no_NaN h ps = (\<forall>p \<in> set ps. Score (h ! p) \<noteq> NaN)"

fun score_ok :: "sl_op \<Rightarrow> bool" where
  "score_ok (OpInsert key val score) = (score \<noteq> NaN)"
| "score_ok (OpDelete key score) = True"

definition kv_inv :: "SkiplistKVStore \<Rightarrow> ptr list \<Rightarrow> bool" where
  "kv_inv s ps =
     (sl_inv (data s) ps
      \<and> (\<forall>p \<in> set ps. Score (heap (data s) ! p) = score_of (Key (heap (data s) ! p))))"

text \<open>The contents of the store as an association list, in list order.\<close>

definition entries :: "heap \<Rightarrow> ptr list \<Rightarrow> (bytes \<times> bytes) list" where
  "entries h ps = map (\<lambda>p. (Key (h ! p), Value (h ! p))) ps"


text \<open>
  Ghost functions for the descent: the elements before the target (score, key), those
  from it on, the cell the descent stops at on level \<open>i\<close>, and the element found.
\<close>

definition pred_at :: "heap \<Rightarrow> ptr \<Rightarrow> nat \<Rightarrow> ptr list \<Rightarrow> ptr" where
  "pred_at h hp i A = last (hp # on_level h i A)"

definition below :: "heap \<Rightarrow> float64 \<Rightarrow> bytes \<Rightarrow> ptr list \<Rightarrow> ptr list" where
  "below h score key ps = takeWhile (\<lambda>p. before score key (h ! p)) ps"

definition from_on :: "heap \<Rightarrow> float64 \<Rightarrow> bytes \<Rightarrow> ptr list \<Rightarrow> ptr list" where
  "from_on h score key ps = dropWhile (\<lambda>p. before score key (h ! p)) ps"

definition lookup :: "heap \<Rightarrow> ptr list \<Rightarrow> bytes \<Rightarrow> float64 \<Rightarrow> ptr option" where
  "lookup h ps key score =
     (case from_on h score key ps of
        [] \<Rightarrow> None
      | x # _ \<Rightarrow> if feq (Score (h ! x)) score \<and> Key (h ! x) = key then Some x else None)"


text \<open>Two heaps that differ at most in the backward pointers of their cells.\<close>

definition links_eq :: "heap \<Rightarrow> heap \<Rightarrow> bool" where
  "links_eq h h' =
     (length h' = length h
      \<and> (\<forall>p < length h. Key (h' ! p) = Key (h ! p) \<and> Value (h' ! p) = Value (h ! p)
            \<and> Score (h' ! p) = Score (h ! p) \<and> Next (h' ! p) = Next (h ! p)))"


text \<open>
  \<open>inserted h h' n lvl pr key val score\<close>: heap \<open>h'\<close> is heap \<open>h\<close> with the new cell \<open>n\<close> of
  \<open>lvl\<close> levels linked in behind the cells \<open>pr 0\<close>, ..., \<open>pr (lvl - 1)\<close>.
\<close>

definition inserted ::
    "heap \<Rightarrow> heap \<Rightarrow> ptr \<Rightarrow> nat \<Rightarrow> (nat \<Rightarrow> ptr) \<Rightarrow> bytes \<Rightarrow> bytes \<Rightarrow> float64 \<Rightarrow> bool" where
  "inserted h h' n lvl pr key val score =
     (n = length h \<and> length h' = Suc (length h)
      \<and> (\<forall>p < length h. Key (h' ! p) = Key (h ! p) \<and> Value (h' ! p) = Value (h ! p)
            \<and> Score (h' ! p) = Score (h ! p) \<and> height h' p = height h p
            \<and> (\<forall>k < height h p. nxt h' p k
                  = (if k < lvl \<and> pr k = p then Some n else nxt h p k)))
      \<and> Key (h' ! n) = key \<and> Value (h' ! n) = val \<and> Score (h' ! n) = score
      \<and> height h' n = lvl
      \<and> (\<forall>k < lvl. nxt h' n k = nxt h (pr k) k))"


text \<open>
  \<open>removed h h' x pr\<close>: heap \<open>h'\<close> is heap \<open>h\<close> with the cell \<open>x\<close> bypassed on each of its
  levels \<open>k\<close>, where \<open>pr k\<close> is the cell that pointed to it.
\<close>

definition removed :: "heap \<Rightarrow> heap \<Rightarrow> ptr \<Rightarrow> (nat \<Rightarrow> ptr) \<Rightarrow> bool" where
  "removed h h' x pr =
     (length h' = length h
      \<and> (\<forall>p < length h. Key (h' ! p) = Key (h ! p) \<and> Value (h' ! p) = Value (h ! p)
            \<and> Score (h' ! p) = Score (h ! p) \<and> height h' p = height h p
            \<and> (\<forall>k < height h p. nxt h' p k
                  = (if k < height h x \<and> pr k = p then nxt h x k else nxt h p k))))"

text \<open>
  A started goroutine \<open>go s.Delete(key)\<close> runs at some later point: one step of the
  scheduler takes the oldest one and runs it to its end.
\<close>

definition run_spawned :: "SkiplistKVStore \<Rightarrow> SkiplistKVStore option" where
  "run_spawned s =
     (case spawned s of
        [] \<Rightarrow> Some s
      | key # rest \<Rightarrow>
          do { (s', _) \<leftarrow> KV_Delete (s\<lparr>spawned := rest\<rparr>) key; Some s' })"

text \<open>A caller's view of the store: calls in sequence, each at its own instant.\<close>

datatype kv_op =
    DoSet bytes bytes
  | DoSetWithTTL int bytes bytes int
  | DoGet int bytes
  | DoDelete bytes
  | RunSpawned

fun run_kv :: "SkiplistKVStore \<Rightarrow> kv_op list \<Rightarrow> SkiplistKVStore option" where
  "run_kv s [] = Some s"
| "run_kv s (DoSet key val # ops) = do { s' \<leftarrow> Set s key val; run_kv s' ops }"
| "run_kv s (DoSetWithTTL now key val ttl # ops) =
     do { s' \<leftarrow> SetWithTTL s now key val ttl; run_kv s' ops }"
| "run_kv s (DoGet now key # ops) = do { (s', _) \<leftarrow> Get s now key; run_kv s' ops }"
| "run_kv s (DoDelete key # ops) = do { (s', _) \<leftarrow> KV_Delete s key; run_kv s' ops }"
| "run_kv s (RunSpawned # ops) = do { s' \<leftarrow> run_spawned s; run_kv s' ops }"

text \<open>Two random sources for examples: one never promotes, one always does.\<close>

definition never_promote :: "nat \<Rightarrow> real" where
  "never_promote n = 3 / 4"

definition always_promote :: "nat \<Rightarrow> real" where
  "always_promote n = 1 / 4"


text \<open>
  A list with two elements for examples: \<open>''a''\<close> with score 1 on one level and \<open>''b''\<close>
  with score 2 on two levels; and a store with an entry whose expiry instant is 100.
\<close>

definition sl_two :: SkipList where
  "sl_two =
     \<lparr>heap =
        [\<lparr>Key = [], Value = [], Score = Finite (-1), Next = Some 1 # Some 2 # replicate 30 None,
          Prev = None\<rparr>,
         \<lparr>Key = ''a'', Value = ''x'', Score = Finite 1, Next = [Some 2], Prev = None\<rparr>,
         \<lparr>Key = ''b'', Value = ''y'', Score = Finite 2, Next = [None, None], Prev = Some 1\<rparr>],
      head = 0, tail = Some 2, length_sl = 2, level = 2, randSrc = never_promote\<rparr>"

definition kv_ttl :: SkiplistKVStore where
  "kv_ttl =
     \<lparr>data = NewSkipList never_promote, ttlData = [''k'' \<mapsto> 100], spawned = []\<rparr>"




text \<open>The loops that may not end are run by their defining equations.\<close>

declare advance.simps [code] Range_collect.simps [code] Scan_loop.simps [code]
  traverse.simps [code]

section \<open>Proofs\<close>

section \<open>Order facts\<close>

lemma bytes_Compare_refl: "bytes_Compare a a = 0"
  by (induction a) auto

lemma bytes_Compare_Cons_neg:
  "bytes_Compare (a # as) (b # bs) < 0 \<longleftrightarrow>
     (of_char a :: nat) < of_char b \<or> (a = b \<and> bytes_Compare as bs < 0)"
  by auto

lemma bytes_Compare_trans:
  "bytes_Compare a b < 0 \<Longrightarrow> bytes_Compare b c < 0 \<Longrightarrow> bytes_Compare a c < 0"
proof (induction a arbitrary: b c)
  case Nil
  then show ?case by (cases b; cases c) simp_all
next
  case (Cons x xs)
  from Cons.prems obtain y ys where b: "b = y # ys" by (cases b) auto
  from Cons.prems b obtain z zs where c: "c = z # zs" by (cases c) auto
  from Cons.prems have 1: "(of_char x :: nat) < of_char y \<or> (x = y \<and> bytes_Compare xs ys < 0)"
    and 2: "(of_char y :: nat) < of_char z \<or> (y = z \<and> bytes_Compare ys zs < 0)"
    unfolding b c bytes_Compare_Cons_neg by blast+
  from 1 2 Cons.IH[of ys zs]
  have "(of_char x :: nat) < of_char z \<or> (x = z \<and> bytes_Compare xs zs < 0)"
    by (metis order_less_trans)
  then show ?case unfolding c bytes_Compare_Cons_neg .
qed

lemma bytes_Compare_total:
  "bytes_Compare a b < 0 \<or> a = b \<or> bytes_Compare b a < 0"
  by (induction a b rule: bytes_Compare.induct) (auto split: if_splits)

text \<open>The comparisons of \<open>float64\<close>.\<close>

lemma flt_NaN [simp]: "\<not> flt NaN a" "\<not> flt a NaN"
  by (cases a; simp)+

lemma flt_irrefl [simp]: "\<not> flt a a"
  by (cases a) simp_all

lemma flt_trans: "flt a b \<Longrightarrow> flt b c \<Longrightarrow> flt a c"
  by (cases a; cases b; cases c) simp_all

lemma flt_asym: "flt a b \<Longrightarrow> \<not> flt b a"
  by (cases a; cases b) simp_all

lemma flt_total: "a \<noteq> NaN \<Longrightarrow> b \<noteq> NaN \<Longrightarrow> flt a b \<or> a = b \<or> flt b a"
  by (cases a; cases b) auto

lemma feq_NaN [simp]: "\<not> feq NaN a" "\<not> feq a NaN"
  by (auto simp: feq_def)

lemma feq_Finite [simp]: "feq a (Finite r) \<longleftrightarrow> a = Finite r"
  by (auto simp: feq_def)

lemma feq_eq: "feq a b \<Longrightarrow> a = b"
  by (simp add: feq_def)

lemma feq_refl: "a \<noteq> NaN \<Longrightarrow> feq a a"
  by (simp add: feq_def)

lemma fle_NaN [simp]: "\<not> fle NaN a" "\<not> fle a NaN"
  by (simp_all add: fle_def)

lemma not_flt_fle: "a \<noteq> NaN \<Longrightarrow> b \<noteq> NaN \<Longrightarrow> \<not> flt a b \<longleftrightarrow> fle b a"
  using flt_total[of a b] flt_asym[of a b] by (auto simp: fle_def feq_def)

lemma flt_fle_trans: "flt a b \<Longrightarrow> fle b c \<Longrightarrow> flt a c"
  by (auto simp: fle_def feq_def intro: flt_trans)

lemma fle_flt_trans: "fle a b \<Longrightarrow> flt b c \<Longrightarrow> flt a c"
  by (auto simp: fle_def feq_def intro: flt_trans)

lemma fle_trans: "fle a b \<Longrightarrow> fle b c \<Longrightarrow> fle a c"
  by (auto simp: fle_def feq_def intro: flt_trans)

lemma score_of_Finite [simp]: "score_of key \<noteq> NaN"
  by (simp add: score_of_def)

lemma feq_score_of [simp]: "feq a (score_of key) \<longleftrightarrow> a = score_of key"
  by (simp add: score_of_def)

lemma before_trans: "elt_less a b \<Longrightarrow> before s k b \<Longrightarrow> before s k a"
  unfolding elt_less_def before_def feq_def
  using bytes_Compare_trans[of "Key a" "Key b" k] flt_trans[of "Score a" "Score b" s]
  by auto

lemma before_irrefl: "feq (Score e) s \<Longrightarrow> Key e = k \<Longrightarrow> \<not> before s k e"
  by (auto simp: before_def feq_def bytes_Compare_refl)

lemma before_NaN [simp]: "\<not> before NaN k e"
  by (simp add: before_def)

lemma before_NaN_elt: "Score e = NaN \<Longrightarrow> \<not> before s k e"
  by (simp add: before_def)

lemma not_before_cases:
  "\<not> before s k e \<Longrightarrow> s \<noteq> NaN \<Longrightarrow> Score e \<noteq> NaN \<Longrightarrow>
   (feq (Score e) s \<and> Key e = k) \<or> flt s (Score e)
     \<or> (feq (Score e) s \<and> bytes_Compare k (Key e) < 0)"
  unfolding before_def feq_def
  using bytes_Compare_total[of "Key e" k] flt_total[of "Score e" s] by auto

lemma elt_less_after:
  "\<not> before s k e \<Longrightarrow> \<not> (feq (Score e) s \<and> Key e = k) \<Longrightarrow> Score n = s \<Longrightarrow> Key n = k \<Longrightarrow>
   s \<noteq> NaN \<Longrightarrow> Score e \<noteq> NaN \<Longrightarrow> elt_less n e"
  using not_before_cases[of s k e] unfolding elt_less_def before_def feq_def by auto

lemma elt_less_no_NaN: "elt_less a b \<Longrightarrow> Score a \<noteq> NaN \<and> Score b \<noteq> NaN"
  unfolding elt_less_def before_def by (cases "Score a"; cases "Score b") (auto simp: feq_def)

section \<open>Paths\<close>

lemma path_append:
  "path h i s (xs @ ys) t \<longleftrightarrow> (\<exists>m. path h i s xs m \<and> path h i m ys t)"
  by (induction xs arbitrary: s) auto

lemma path_frame:
  assumes "path h i s qs t"
    and "\<And>q. q \<in> set qs \<Longrightarrow> q < length h \<Longrightarrow>
           q < length h' \<and> height h' q = height h q \<and> nxt h' q i = nxt h q i"
  shows "path h' i s qs t"
  using assms by (induction qs arbitrary: s) auto

lemma path_valid: "path h i s qs t \<Longrightarrow> q \<in> set qs \<Longrightarrow> q < length h \<and> i < height h q"
  by (induction qs arbitrary: s) auto

lemma path_unique: "path h i s qs None \<Longrightarrow> path h i s rs None \<Longrightarrow> qs = rs"
proof (induction qs arbitrary: s rs)
  case Nil then show ?case by (cases rs) auto
next
  case (Cons q qs) then show ?case by (cases rs) auto
qed

lemma advance_path:
  "x < length h \<Longrightarrow> i < height h x \<Longrightarrow> path h i (nxt h x i) qs None \<Longrightarrow>
   advance h lt i x = Some (last (x # takeWhile (\<lambda>q. lt (h ! q)) qs))"
proof (induction qs arbitrary: x)
  case Nil
  then show ?case
    by (subst advance.simps) (simp add: deref_def index_def height_def nxt_def)
next
  case (Cons q qs)
  from Cons.prems have q: "nxt h x i = Some q" "q < length h" "i < height h q"
    "path h i (nxt h q i) qs None" by auto
  show ?case
  proof (cases "lt (h ! q)")
    case True
    with Cons.IH[OF q(2,3,4)] Cons.prems(1,2) q(1,2) show ?thesis
      by (subst advance.simps) (simp add: deref_def index_def height_def nxt_def)
  next
    case False
    with Cons.prems(1,2) q(1,2) show ?thesis
      by (subst advance.simps) (simp add: deref_def index_def height_def nxt_def)
  qed
qed

lemma on_level_append: "on_level h i (xs @ ys) = on_level h i xs @ on_level h i ys"
  by (simp add: on_level_def)

lemma set_on_level: "set (on_level h i ps) = {p \<in> set ps. i < height h p}"
  by (auto simp: on_level_def)

lemma takeWhile_split:
  "(\<And>a. a \<in> set xs \<Longrightarrow> P a) \<Longrightarrow> (\<And>b. b \<in> set ys \<Longrightarrow> \<not> P b) \<Longrightarrow>
   takeWhile P (xs @ ys) = xs"
  by (cases ys) (simp_all add: takeWhile_append2)

text \<open>One level of the descent: from the predecessor at level i+1 to the one at level i.\<close>

lemma advance_pred:
  assumes hp: "hp < length h" "i < height h hp"
    and pth: "path h i (nxt h hp i) (on_level h i (A @ B)) None"
    and A: "\<forall>a \<in> set A. lt (h ! a)"
    and B: "\<forall>b \<in> set B. \<not> lt (h ! b)"
  shows "advance h lt i (pred_at h hp (Suc i) A) = Some (pred_at h hp i A)"
proof (cases "on_level h (Suc i) A = []")
  case True
  have tw: "takeWhile (\<lambda>q. lt (h ! q)) (on_level h i A @ on_level h i B) = on_level h i A"
    by (rule takeWhile_split) (auto simp: set_on_level A B)
  from True have "pred_at h hp (Suc i) A = hp" by (simp add: pred_at_def)
  with advance_path[OF hp pth[unfolded on_level_append], of lt] tw show ?thesis
    by (simp add: pred_at_def)
next
  case False
  define x where "x = last (on_level h (Suc i) A)"
  from False have px: "pred_at h hp (Suc i) A = x" by (simp add: pred_at_def x_def)
  from False have "x \<in> set (on_level h (Suc i) A)" unfolding x_def by (rule last_in_set)
  then have "x \<in> set (on_level h i A)" by (auto simp: set_on_level)
  then obtain ys zs where sp: "on_level h i A = ys @ x # zs" by (auto dest: split_list)
  from pth have "path h i (nxt h hp i) (ys @ (x # zs @ on_level h i B)) None"
    by (simp add: on_level_append sp)
  then obtain m where "path h i m (x # zs @ on_level h i B) None"
    unfolding path_append by blast
  then have x: "x < length h" "i < height h x"
    and px2: "path h i (nxt h x i) (zs @ on_level h i B) None" by auto
  have "set zs \<subseteq> set (on_level h i A)" by (auto simp: sp)
  then have tw: "takeWhile (\<lambda>q. lt (h ! q)) (zs @ on_level h i B) = zs"
    by (intro takeWhile_split) (auto simp: set_on_level A B)
  have "last (x # zs) = last (hp # on_level h i A)" by (simp add: sp)
  with advance_path[OF x px2, of lt] tw px show ?thesis
    by (simp add: pred_at_def)
qed

text \<open>The predecessor's forward pointer at level i is the first tall-enough later element.\<close>

lemma path_next_last:
  "path h i (nxt h x i) (xs @ ys) None \<Longrightarrow>
   nxt h (last (x # xs)) i = (case ys of [] \<Rightarrow> None | y # _ \<Rightarrow> Some y)"
  by (induction xs arbitrary: x) (auto split: list.splits)

lemma nxt_pred_at:
  "path h i (nxt h hp i) (on_level h i (A @ B)) None \<Longrightarrow>
   nxt h (pred_at h hp i A) i = (case on_level h i B of [] \<Rightarrow> None | y # _ \<Rightarrow> Some y)"
  unfolding pred_at_def on_level_append by (rule path_next_last)

lemma pred_at_valid:
  assumes "hp < length h" "i < height h hp"
    and "path h i (nxt h hp i) (on_level h i (A @ B)) None"
  shows "pred_at h hp i A < length h \<and> i < height h (pred_at h hp i A)"
proof (cases "on_level h i A = []")
  case True with assms show ?thesis by (simp add: pred_at_def)
next
  case False
  then have "last (on_level h i A) \<in> set (on_level h i (A @ B))"
    by (simp add: on_level_append)
  from path_valid[OF assms(3) this] False show ?thesis by (simp add: pred_at_def)
qed

lemma pred_at_cases: "pred_at h hp i A = hp \<or> (pred_at h hp i A \<in> set A \<and> i < height h (pred_at h hp i A))"
proof (cases "on_level h i A = []")
  case True then show ?thesis by (simp add: pred_at_def)
next
  case False
  then have "last (on_level h i A) \<in> set (on_level h i A)" by (rule last_in_set)
  with False show ?thesis by (auto simp: pred_at_def set_on_level)
qed

text \<open>The whole descent, with the update vector.\<close>

lemma walk_pred:
  assumes hp: "hp < length h" "height h hp = MaxLevel"
    and pth: "\<forall>i < MaxLevel. path h i (nxt h hp i) (on_level h i (A @ B)) None"
    and A: "\<forall>a \<in> set A. lt (h ! a)"
    and B: "\<forall>b \<in> set B. \<not> lt (h ! b)"
  shows "n \<le> MaxLevel \<Longrightarrow> n \<le> length upd \<Longrightarrow>
    \<exists>upd'. walk h lt n (pred_at h hp n A) upd = Some (pred_at h hp 0 A, upd')
      \<and> length upd' = length upd
      \<and> (\<forall>i < length upd. upd' ! i = (if i < n then Some (pred_at h hp i A) else upd ! i))"
proof (induction n arbitrary: upd)
  case 0
  then show ?case by simp
next
  case (Suc n)
  from Suc.prems hp have n: "n < MaxLevel" "n < height h hp" "n < length upd" by auto
  have adv: "advance h lt n (pred_at h hp (Suc n) A) = Some (pred_at h hp n A)"
    using hp(1) n(2) pth[rule_format, OF n(1)] A B by (rule advance_pred)
  from Suc.IH[of "upd[n := Some (pred_at h hp n A)]"] n Suc.prems
  obtain upd' where w: "walk h lt n (pred_at h hp n A) (upd[n := Some (pred_at h hp n A)])
        = Some (pred_at h hp 0 A, upd')"
    and l: "length upd' = length upd"
    and u: "\<forall>i < length upd. upd' ! i
        = (if i < n then Some (pred_at h hp i A) else upd[n := Some (pred_at h hp n A)] ! i)"
    by auto
  have "\<forall>i < length upd. upd' ! i = (if i < Suc n then Some (pred_at h hp i A) else upd ! i)"
    using u n(3) by (auto simp: less_Suc_eq nth_list_update)
  with adv w l n(3) show ?case by (simp add: index_def)
qed

lemma descend_walk:
  "n \<le> length upd \<Longrightarrow> descend h lt n x = map_option fst (walk h lt n x upd)"
proof (induction n arbitrary: x upd)
  case 0 then show ?case by simp
next
  case (Suc n)
  show ?case
  proof (cases "advance h lt n x")
    case None then show ?thesis by simp
  next
    case (Some x')
    with Suc.IH[of "upd[n := Some x']" x'] Suc.prems show ?thesis by (simp add: index_def)
  qed
qed

lemma below_from_on: "below h s k ps @ from_on h s k ps = ps"
  by (simp add: below_def from_on_def)

lemma below_before: "a \<in> set (below h s k ps) \<Longrightarrow> before s k (h ! a)"
  unfolding below_def by (auto dest: set_takeWhileD)

lemma sorted_dropWhile_not:
  assumes "sorted_wrt R ps" and "\<And>a b. R a b \<Longrightarrow> P b \<Longrightarrow> P a"
  shows "b \<in> set (dropWhile P ps) \<Longrightarrow> \<not> P b"
  using assms(1)
proof (induction ps)
  case Nil then show ?case by simp
next
  case (Cons a ps)
  show ?case
  proof (cases "P a")
    case True with Cons show ?thesis by simp
  next
    case False
    with Cons.prems assms(2) show ?thesis by auto
  qed
qed

lemma from_on_not_before:
  assumes "sorted_wrt (\<lambda>p q. elt_less (h ! p) (h ! q)) ps"
  shows "b \<in> set (from_on h s k ps) \<Longrightarrow> \<not> before s k (h ! b)"
  unfolding from_on_def
  using assms by (rule sorted_dropWhile_not) (rule before_trans)

lemma sl_inv_iff:
  "sl_inv sl ps \<longleftrightarrow>
     sl_shape sl ps \<and> sorted_wrt (\<lambda>p q. elt_less (heap sl ! p) (heap sl ! q)) ps"
  unfolding sl_inv_def sl_shape_def by blast

lemma sl_inv_shape: "sl_inv sl ps \<Longrightarrow> sl_shape sl ps"
  by (simp add: sl_inv_iff)

lemma sl_inv_paths:
  "sl_inv sl ps \<Longrightarrow> i < MaxLevel \<Longrightarrow>
   path (heap sl) i (nxt (heap sl) (head sl) i)
     (on_level (heap sl) i (below h' s k ps @ from_on h' s k ps)) None"
  by (simp add: below_from_on sl_inv_def)

lemma on_level_top:
  "\<forall>p \<in> set A. height h p \<le> n \<Longrightarrow> n \<le> i \<Longrightarrow> on_level h i A = []"
  by (fastforce simp: on_level_def filter_empty_conv)

lemma on_level_0: "\<forall>p \<in> set A. 1 \<le> height h p \<Longrightarrow> on_level h 0 A = A"
  by (fastforce simp: on_level_def filter_id_conv Suc_le_eq)

lemma pred_at_top:
  "\<forall>p \<in> set A. height h p \<le> n \<Longrightarrow> n \<le> i \<Longrightarrow> pred_at h hp i A = hp"
  using on_level_top[of A h n i] by (simp add: pred_at_def)

text \<open>The descent of an operation on a well-formed list, for any downward-closed condition.\<close>

lemma walk_inv:
  assumes inv: "sl_shape sl ps" and ps: "ps = A @ B"
    and A: "\<forall>a \<in> set A. lt (heap sl ! a)"
    and B: "\<forall>b \<in> set B. \<not> lt (heap sl ! b)"
  shows "\<exists>upd. walk (heap sl) lt (level sl) (head sl) (replicate MaxLevel None)
           = Some (last (head sl # A), upd)
      \<and> length upd = MaxLevel
      \<and> (\<forall>i < MaxLevel. upd ! i =
            (if i < level sl then Some (pred_at (heap sl) (head sl) i A) else None))"
proof -
  let ?h = "heap sl" and ?hp = "head sl"
  from inv have hp: "?hp < length ?h" "height ?h ?hp = MaxLevel"
    and lv: "level sl \<le> MaxLevel" by (auto simp: sl_shape_def)
  from inv ps have hts: "\<forall>p \<in> set A. height ?h p \<le> level sl"
    and hts1: "\<forall>p \<in> set A. 1 \<le> height ?h p"
    by (auto simp: sl_shape_def)
  have pth: "\<forall>i < MaxLevel. path ?h i (nxt ?h ?hp i) (on_level ?h i (A @ B)) None"
    using inv ps by (simp add: sl_shape_def)
  have top: "pred_at ?h ?hp (level sl) A = ?hp"
    using hts by (rule pred_at_top) simp
  have bot: "pred_at ?h ?hp 0 A = last (?hp # A)"
    unfolding pred_at_def using on_level_0[OF hts1] by simp
  have "\<exists>upd'. walk ?h lt (level sl) (pred_at ?h ?hp (level sl) A) (replicate MaxLevel None)
        = Some (pred_at ?h ?hp 0 A, upd')
      \<and> length upd' = length (replicate MaxLevel (None :: ptr option))
      \<and> (\<forall>i < length (replicate MaxLevel (None :: ptr option)). upd' ! i =
           (if i < level sl then Some (pred_at ?h ?hp i A)
            else replicate MaxLevel None ! i))"
    using hp pth A B by (rule walk_pred) (use lv in simp_all)
  then obtain upd' where
    "walk ?h lt (level sl) ?hp (replicate MaxLevel None) = Some (last (?hp # A), upd')"
    "length upd' = MaxLevel"
    "\<forall>i < MaxLevel. upd' ! i =
       (if i < level sl then Some (pred_at ?h ?hp i A) else replicate MaxLevel None ! i)"
    unfolding top bot length_replicate by blast
  then show ?thesis by (intro exI[of _ upd']) (simp del: last.simps)
qed

lemma descend_inv:
  assumes inv: "sl_shape sl ps" and ps: "ps = A @ B"
    and A: "\<forall>a \<in> set A. lt (heap sl ! a)"
    and B: "\<forall>b \<in> set B. \<not> lt (heap sl ! b)"
  shows "descend (heap sl) lt (level sl) (head sl) = Some (last (head sl # A))"
proof -
  from inv have "level sl \<le> length (replicate MaxLevel (None :: ptr option))"
    by (simp add: sl_shape_def)
  from descend_walk[OF this] walk_inv[OF inv ps A B] show ?thesis by auto
qed

text \<open>What the cell reached by the descent points to at level 0.\<close>

lemma next0_inv:
  assumes inv: "sl_shape sl ps" and ps: "ps = A @ B"
  shows "last (head sl # A) < length (heap sl)"
    and "0 < height (heap sl) (last (head sl # A))"
    and "nxt (heap sl) (last (head sl # A)) 0 = (case B of [] \<Rightarrow> None | y # _ \<Rightarrow> Some y)"
proof -
  let ?h = "heap sl" and ?hp = "head sl"
  from inv have hp: "?hp < length ?h" "0 < height ?h ?hp"
    by (auto simp: sl_shape_def MaxLevel_def)
  from inv ps have hts: "\<forall>p \<in> set A. 1 \<le> height ?h p" "\<forall>p \<in> set B. 1 \<le> height ?h p"
    by (auto simp: sl_shape_def)
  have A0: "on_level ?h 0 A = A" and B0: "on_level ?h 0 B = B"
    using hts by (simp_all add: on_level_0)
  from inv ps have pth: "path ?h 0 (nxt ?h ?hp 0) (on_level ?h 0 (A @ B)) None"
    by (simp add: sl_shape_def MaxLevel_def)
  from pred_at_valid[OF hp pth] show "last (?hp # A) < length ?h"
    "0 < height ?h (last (?hp # A))" by (simp_all add: pred_at_def A0)
  from nxt_pred_at[OF pth] show
    "nxt ?h (last (?hp # A)) 0 = (case B of [] \<Rightarrow> None | y # _ \<Rightarrow> Some y)"
    by (simp add: pred_at_def A0 B0)
qed

lemma lookup_Some:
  assumes "sorted_wrt (\<lambda>p q. elt_less (h ! p) (h ! q)) ps"
  shows "lookup h ps key score = Some x \<longleftrightarrow>
         x \<in> set ps \<and> feq (Score (h ! x)) score \<and> Key (h ! x) = key"
proof
  assume "lookup h ps key score = Some x"
  then obtain zs where "from_on h score key ps = x # zs" "feq (Score (h ! x)) score" "Key (h ! x) = key"
    by (auto simp: lookup_def split: list.splits if_splits)
  moreover from this have "x \<in> set ps"
    by (metis below_from_on in_set_conv_decomp)
  ultimately show "x \<in> set ps \<and> feq (Score (h ! x)) score \<and> Key (h ! x) = key" by simp
next
  assume x: "x \<in> set ps \<and> feq (Score (h ! x)) score \<and> Key (h ! x) = key"
  then have nb: "\<not> before score key (h ! x)" by (simp add: before_irrefl)
  with x below_before[of x h score key ps] have "x \<in> set (from_on h score key ps)"
    using below_from_on[of h score key ps] by (metis Un_iff set_append)
  then obtain y zs where f: "from_on h score key ps = y # zs" by (cases "from_on h score key ps") auto
  have "y = x"
  proof (rule ccontr)
    assume "y \<noteq> x"
    with f \<open>x \<in> set (from_on h score key ps)\<close> have "x \<in> set zs" by auto
    moreover from assms have "sorted_wrt (\<lambda>p q. elt_less (h ! p) (h ! q)) (below h score key ps @ y # zs)"
      by (simp add: f[symmetric] below_from_on)
    ultimately have "elt_less (h ! y) (h ! x)" by (auto simp: sorted_wrt_append)
    then have "before score key (h ! y)" using x by (auto simp: elt_less_def dest: feq_eq)
    moreover have "\<not> before score key (h ! y)"
      by (rule from_on_not_before[OF assms]) (simp add: f)
    ultimately show False by simp
  qed
  with f x show "lookup h ps key score = Some x" by (simp add: lookup_def)
qed

lemma lookup_None:
  assumes "sorted_wrt (\<lambda>p q. elt_less (h ! p) (h ! q)) ps"
  shows "lookup h ps key score = None \<longleftrightarrow>
         (\<forall>x \<in> set ps. \<not> (feq (Score (h ! x)) score \<and> Key (h ! x) = key))"
  using lookup_Some[OF assms, of key score]
  by (metis not_Some_eq)

lemma deref_valid: "p < length h \<Longrightarrow> deref h p = Some (h ! p)"
  by (simp add: deref_def)

lemma index_nxt: "i < height h p \<Longrightarrow> index (Next (h ! p)) i = Some (nxt h p i)"
  by (simp add: index_def height_def nxt_def)

lemma nth_upd: "p < length h \<Longrightarrow> h[y := e] ! p = (if p = y then e else h ! p)"
  by (cases "p = y") simp_all

text \<open>The common first part of \<open>Insert\<close>, \<open>Delete\<close> and \<open>Search\<close>.\<close>

lemma locate_at:
  assumes sh: "sl_shape sl ps" and ps: "ps = A @ B"
    and a: "\<forall>a \<in> set A. lt (heap sl ! a)"
    and b: "\<forall>b \<in> set B. \<not> lt (heap sl ! b)"
  shows "\<exists>upd. walk (heap sl) lt (level sl) (head sl) (replicate MaxLevel None)
           = Some (last (head sl # A), upd)
      \<and> length upd = MaxLevel
      \<and> (\<forall>i < MaxLevel. upd ! i =
            (if i < level sl then Some (pred_at (heap sl) (head sl) i A) else None))"
    and "descend (heap sl) lt (level sl) (head sl) = Some (last (head sl # A))"
    and "deref (heap sl) (last (head sl # A)) = Some (heap sl ! last (head sl # A))"
    and "index (Next (heap sl ! last (head sl # A))) 0
           = Some (case B of [] \<Rightarrow> None | y # _ \<Rightarrow> Some y)"
proof -
  show "\<exists>upd. walk (heap sl) lt (level sl) (head sl) (replicate MaxLevel None)
           = Some (last (head sl # A), upd)
      \<and> length upd = MaxLevel
      \<and> (\<forall>i < MaxLevel. upd ! i =
            (if i < level sl then Some (pred_at (heap sl) (head sl) i A) else None))"
    using sh ps a b by (rule walk_inv)
  show "descend (heap sl) lt (level sl) (head sl) = Some (last (head sl # A))"
    using sh ps a b by (rule descend_inv)
  show "deref (heap sl) (last (head sl # A)) = Some (heap sl ! last (head sl # A))"
    using next0_inv(1)[OF sh ps] by (rule deref_valid)
  show "index (Next (heap sl ! last (head sl # A))) 0
           = Some (case B of [] \<Rightarrow> None | y # _ \<Rightarrow> Some y)"
    using index_nxt[OF next0_inv(2)[OF sh ps]] next0_inv(3)[OF sh ps] by simp
qed

lemma locate:
  assumes inv: "sl_inv sl ps"
    and A_def: "A = below (heap sl) score key ps" and B_def: "B = from_on (heap sl) score key ps"
  shows "\<exists>upd. walk (heap sl) (before score key) (level sl) (head sl) (replicate MaxLevel None)
           = Some (last (head sl # A), upd)
      \<and> length upd = MaxLevel
      \<and> (\<forall>i < MaxLevel. upd ! i =
            (if i < level sl then Some (pred_at (heap sl) (head sl) i A) else None))"
    and "descend (heap sl) (before score key) (level sl) (head sl) = Some (last (head sl # A))"
    and "deref (heap sl) (last (head sl # A)) = Some (heap sl ! last (head sl # A))"
    and "index (Next (heap sl ! last (head sl # A))) 0
           = Some (case B of [] \<Rightarrow> None | y # _ \<Rightarrow> Some y)"
proof -
  have ps: "ps = A @ B" by (simp add: A_def B_def below_from_on)
  have a: "\<forall>a \<in> set A. before score key (heap sl ! a)"
    by (auto simp: A_def dest: below_before)
  from inv have "sorted_wrt (\<lambda>p q. elt_less (heap sl ! p) (heap sl ! q)) ps"
    by (simp add: sl_inv_def)
  then have b: "\<forall>b \<in> set B. \<not> before score key (heap sl ! b)"
    by (auto simp: B_def dest: from_on_not_before)
  note sh = sl_inv_shape[OF inv]
  show "\<exists>upd. walk (heap sl) (before score key) (level sl) (head sl) (replicate MaxLevel None)
           = Some (last (head sl # A), upd)
      \<and> length upd = MaxLevel
      \<and> (\<forall>i < MaxLevel. upd ! i =
            (if i < level sl then Some (pred_at (heap sl) (head sl) i A) else None))"
    using sh ps a b by (rule locate_at(1))
  show "descend (heap sl) (before score key) (level sl) (head sl) = Some (last (head sl # A))"
    using sh ps a b by (rule locate_at(2))
  show "deref (heap sl) (last (head sl # A)) = Some (heap sl ! last (head sl # A))"
    using sh ps a b by (rule locate_at(3))
  show "index (Next (heap sl ! last (head sl # A))) 0
           = Some (case B of [] \<Rightarrow> None | y # _ \<Rightarrow> Some y)"
    using sh ps a b by (rule locate_at(4))
qed

text \<open>\<open>Search\<close> on a list of any order, when the descent cuts it into \<open>A\<close> and \<open>B\<close>.\<close>

lemma Search_at:
  assumes sh: "sl_shape sl ps" and ps: "ps = A @ B"
    and a: "\<forall>a \<in> set A. before score key (heap sl ! a)"
    and b: "\<forall>b \<in> set B. \<not> before score key (heap sl ! b)"
  shows "Search sl key score =
     Some (case B of [] \<Rightarrow> None
           | y # _ \<Rightarrow> if feq (Score (heap sl ! y)) score \<and> Key (heap sl ! y) = key
                      then Some y else None)"
proof (cases B)
  case Nil
  then show ?thesis
    unfolding Search_def using locate_at(2,3,4)[OF sh ps a b]
    by (simp del: last.simps)
next
  case (Cons y zs)
  with sh ps have "y < length (heap sl)" by (simp add: sl_shape_def)
  with Cons show ?thesis
    unfolding Search_def using locate_at(2,3,4)[OF sh ps a b]
    by (simp add: deref_valid bytes_Equal_def del: last.simps)
qed

lemma from_on_valid:
  "sl_inv sl ps \<Longrightarrow> from_on (heap sl) score key ps = y # zs \<Longrightarrow> y < length (heap sl)"
proof -
  assume inv: "sl_inv sl ps" and f: "from_on (heap sl) score key ps = y # zs"
  have "y \<in> set ps" using below_from_on[of "heap sl" score key ps] f
    by (metis in_set_conv_decomp)
  with inv show ?thesis by (simp add: sl_inv_def)
qed

lemma Search_spec:
  assumes inv: "sl_inv sl ps"
  shows "Search sl key score = Some (lookup (heap sl) ps key score)"
proof (cases "from_on (heap sl) score key ps")
  case Nil
  then show ?thesis
    unfolding Search_def using locate(2,3,4)[OF inv refl refl, of score key]
    by (simp add: lookup_def del: last.simps)
next
  case (Cons y zs)
  from from_on_valid[OF inv Cons] Cons show ?thesis
    unfolding Search_def using locate(2,3,4)[OF inv refl refl, of score key]
    by (simp add: lookup_def deref_valid bytes_Equal_def del: last.simps)
qed

lemma Insert_existing:
  assumes inv: "sl_inv sl ps" and hit: "lookup (heap sl) ps key score = Some y"
  shows "Insert sl key val score
         = Some (sl\<lparr>heap := (heap sl)[y := (heap sl ! y)\<lparr>Value := val\<rparr>]\<rparr>, y)"
proof -
  from hit obtain zs where f: "from_on (heap sl) score key ps = y # zs"
    and m: "feq (Score (heap sl ! y)) score" "Key (heap sl ! y) = key"
    by (auto simp: lookup_def split: list.splits if_splits)
  from locate(1)[OF inv refl refl, of score key] obtain upd where
    w: "walk (heap sl) (before score key) (level sl) (head sl) (replicate MaxLevel None)
         = Some (last (head sl # below (heap sl) score key ps), upd)" by blast
  from from_on_valid[OF inv f] f m w show ?thesis
    unfolding Insert_def using locate(3,4)[OF inv refl refl, of score key]
    by (simp add: deref_valid bytes_Equal_def del: last.simps)
qed

lemma Delete_absent:
  assumes inv: "sl_inv sl ps" and miss: "lookup (heap sl) ps key score = None"
  shows "Delete sl key score = Some (sl, False)"
proof -
  from locate(1)[OF inv refl refl, of score key] obtain upd where
    w: "walk (heap sl) (before score key) (level sl) (head sl) (replicate MaxLevel None)
         = Some (last (head sl # below (heap sl) score key ps), upd)" by blast
  show ?thesis
  proof (cases "from_on (heap sl) score key ps")
    case Nil
    with w show ?thesis
      unfolding Delete_def using locate(3,4)[OF inv refl refl, of score key]
      by (simp del: last.simps)
  next
    case (Cons y zs)
    with miss have "\<not> feq (Score (heap sl ! y)) score \<or> Key (heap sl ! y) \<noteq> key"
      by (auto simp: lookup_def split: if_splits)
    with from_on_valid[OF inv Cons] Cons w show ?thesis
      unfolding Delete_def using locate(3,4)[OF inv refl refl, of score key]
      by (auto simp add: deref_valid bytes_Equal_def simp del: last.simps)
  qed
qed

text \<open>Changing a value keeps the representation.\<close>

lemma sl_inv_set_value:
  assumes inv: "sl_inv sl ps" and y: "y \<in> set ps"
  shows "sl_inv (sl\<lparr>heap := (heap sl)[y := (heap sl ! y)\<lparr>Value := val\<rparr>]\<rparr>) ps"
proof -
  let ?h = "heap sl" and ?h' = "(heap sl)[y := (heap sl ! y)\<lparr>Value := val\<rparr>]"
  have same: "\<And>p. p < length ?h \<Longrightarrow> Next (?h' ! p) = Next (?h ! p) \<and> Score (?h' ! p) = Score (?h ! p)
      \<and> Key (?h' ! p) = Key (?h ! p)"
    by (simp add: nth_upd)
  then have hn: "\<And>p i. p < length ?h \<Longrightarrow> height ?h' p = height ?h p \<and> nxt ?h' p i = nxt ?h p i"
    by (simp add: height_def nxt_def)
  from inv have val: "\<forall>p \<in> set ps. p < length ?h" by (simp add: sl_inv_def)
  then have ol: "\<And>i. on_level ?h' i ps = on_level ?h i ps"
    unfolding on_level_def by (intro filter_cong) (auto simp: hn)
  have less: "\<And>p q. p \<in> set ps \<Longrightarrow> q \<in> set ps \<Longrightarrow>
      elt_less (?h' ! p) (?h' ! q) = elt_less (?h ! p) (?h ! q)"
    using val same by (simp add: elt_less_def before_def)
  have srt: "sorted_wrt (\<lambda>p q. elt_less (?h' ! p) (?h' ! q)) ps"
    using inv less by (auto simp: sl_inv_def sorted_wrt_iff_nth_less)
  have pths: "\<forall>i < MaxLevel. path ?h' i (nxt ?h' (head sl) i) (on_level ?h' i ps) None"
  proof (intro allI impI)
    fix i assume "i < MaxLevel"
    with inv have p: "path ?h i (nxt ?h (head sl) i) (on_level ?h i ps) None"
      and hp: "head sl < length ?h" by (auto simp: sl_inv_def)
    from p have "path ?h' i (nxt ?h (head sl) i) (on_level ?h i ps) None"
      by (rule path_frame) (simp add: hn)
    with hp show "path ?h' i (nxt ?h' (head sl) i) (on_level ?h' i ps) None"
      by (simp add: hn ol)
  qed
  from inv pths srt show ?thesis
    by (auto simp: sl_inv_def hn)
qed

declare randomLevel_loop.simps [simp del] Insert_fill.simps [simp del]
  Insert_splice.simps [simp del] Delete_unsplice.simps [simp del] Delete_shrink.simps [simp del]

lemma randomLevel_loop_bounds:
  "l \<le> MaxLevel \<Longrightarrow>
   l \<le> fst (randomLevel_loop l rs) \<and> fst (randomLevel_loop l rs) \<le> MaxLevel"
proof (induction l rs rule: randomLevel_loop.induct)
  case (1 lvl rs)
  show ?case
  proof (cases "lvl < MaxLevel \<and> rs 0 < Probability")
    case True
    with "1.IH" have "lvl + 1 \<le> fst (randomLevel_loop (lvl + 1) (\<lambda>n. rs (Suc n)))
      \<and> fst (randomLevel_loop (lvl + 1) (\<lambda>n. rs (Suc n))) \<le> MaxLevel" by simp
    with True show ?thesis by (subst (1 2) randomLevel_loop.simps) simp
  next
    case False
    with "1.prems" show ?thesis by (subst (1 2) randomLevel_loop.simps) auto
  qed
qed

lemma randomLevel_bounds:
  "1 \<le> fst (randomLevel rs) \<and> fst (randomLevel rs) \<le> MaxLevel"
  unfolding randomLevel_def by (rule randomLevel_loop_bounds) (simp add: MaxLevel_def)

lemma Insert_fill_spec:
  "lvl \<le> length upd \<Longrightarrow>
   \<exists>upd'. Insert_fill upd hp i lvl = Some upd' \<and> length upd' = length upd
     \<and> (\<forall>j < length upd. upd' ! j = (if i \<le> j \<and> j < lvl then Some hp else upd ! j))"
proof (induction "lvl - i" arbitrary: i upd)
  case 0
  then show ?case by (subst Insert_fill.simps) auto
next
  case (Suc d)
  then have i: "i < lvl" "i < length upd" by auto
  from Suc(2) have d: "d = lvl - (i + 1)" by simp
  from Suc(1)[OF d, of "upd[i := Some hp]"] Suc.prems
  obtain upd' where f: "Insert_fill (upd[i := Some hp]) hp (i + 1) lvl = Some upd'"
    and l: "length upd' = length upd"
    and u: "\<forall>j < length upd. upd' ! j
        = (if i + 1 \<le> j \<and> j < lvl then Some hp else upd[i := Some hp] ! j)" by auto
  have "\<forall>j < length upd. upd' ! j = (if i \<le> j \<and> j < lvl then Some hp else upd ! j)"
    using u i by (auto simp: nth_upd)
  with f l i show ?case by (subst Insert_fill.simps) (simp add: index_def)
qed

text \<open>One round of the splicing loop, and then the loop.\<close>

lemma splice_step:
  assumes n: "n < length g" "i < height g n"
    and u: "u < length g" "i < height g u" "u \<noteq> n"
  defines "g1 \<equiv> g[n := (g ! n)\<lparr>Next := (Next (g ! n))[i := nxt g u i]\<rparr>]"
  defines "g2 \<equiv> g1[u := (g1 ! u)\<lparr>Next := (Next (g1 ! u))[i := Some n]\<rparr>]"
  shows "length g2 = length g"
    and "\<And>p. p < length g \<Longrightarrow> Key (g2 ! p) = Key (g ! p) \<and> Value (g2 ! p) = Value (g ! p)
           \<and> Score (g2 ! p) = Score (g ! p) \<and> Prev (g2 ! p) = Prev (g ! p)
           \<and> height g2 p = height g p"
    and "\<And>p k. p < length g \<Longrightarrow> k < height g p \<Longrightarrow>
           nxt g2 p k = (if k = i then (if p = u then Some n else if p = n then nxt g u i
                                         else nxt g p k)
                          else nxt g p k)"
proof -
  show "length g2 = length g" by (simp add: g1_def g2_def)
  have g1u: "g1 ! u = g ! u" using u by (simp add: g1_def)
  show "Key (g2 ! p) = Key (g ! p) \<and> Value (g2 ! p) = Value (g ! p)
           \<and> Score (g2 ! p) = Score (g ! p) \<and> Prev (g2 ! p) = Prev (g ! p)
           \<and> height g2 p = height g p" if "p < length g" for p
    using that by (simp add: g2_def g1u nth_upd height_def) (simp add: g1_def nth_upd)
  show "nxt g2 p k = (if k = i then (if p = u then Some n else if p = n then nxt g u i
                                         else nxt g p k)
                          else nxt g p k)" if "p < length g" "k < height g p" for p k
    using that u n
    by (simp add: g2_def g1u nth_upd height_def nxt_def) (simp add: g1_def nth_upd nxt_def)
qed

lemma Insert_splice_unfold:
  assumes "i < lvl" "i < length upd" "upd ! i = Some u"
    and n: "n < length g" "i < height g n"
    and u: "u < length g" "i < height g u" "u \<noteq> n"
  shows "Insert_splice g upd n i lvl =
         Insert_splice
           ((g[n := (g ! n)\<lparr>Next := (Next (g ! n))[i := nxt g u i]\<rparr>])
              [u := (g[n := (g ! n)\<lparr>Next := (Next (g ! n))[i := nxt g u i]\<rparr>] ! u)
                \<lparr>Next := (Next (g[n := (g ! n)\<lparr>Next := (Next (g ! n))[i := nxt g u i]\<rparr>] ! u))
                   [i := Some n]\<rparr>])
           upd n (i + 1) lvl"
  using assms
  by (subst Insert_splice.simps) (simp add: index_def deref_def height_def nxt_def Let_def)

lemma Insert_splice_spec:
  assumes "n < length g" "lvl \<le> height g n" "lvl \<le> length upd"
    and "\<forall>j. i \<le> j \<and> j < lvl \<longrightarrow>
           (\<exists>u. upd ! j = Some u \<and> u < length g \<and> j < height g u \<and> u \<noteq> n)"
  shows "\<exists>g'. Insert_splice g upd n i lvl = Some g' \<and> length g' = length g
     \<and> (\<forall>p < length g. Key (g' ! p) = Key (g ! p) \<and> Value (g' ! p) = Value (g ! p)
           \<and> Score (g' ! p) = Score (g ! p) \<and> Prev (g' ! p) = Prev (g ! p)
           \<and> height g' p = height g p
           \<and> (\<forall>k < height g p. nxt g' p k =
                 (if i \<le> k \<and> k < lvl
                  then (if upd ! k = Some p then Some n
                        else if p = n then nxt g (the (upd ! k)) k else nxt g p k)
                  else nxt g p k)))"
  using assms
proof (induction "lvl - i" arbitrary: i g)
  case 0
  then show ?case by (subst Insert_splice.simps) auto
next
  case (Suc d)
  then have i: "i < lvl" "i < length upd" "i < height g n" by auto
  from Suc.prems(4) i obtain u where u: "upd ! i = Some u" "u < length g" "i < height g u" "u \<noteq> n"
    by (metis order_refl)
  define g1 where "g1 = g[n := (g ! n)\<lparr>Next := (Next (g ! n))[i := nxt g u i]\<rparr>]"
  define g2 where "g2 = g1[u := (g1 ! u)\<lparr>Next := (Next (g1 ! u))[i := Some n]\<rparr>]"
  note st = splice_step[OF Suc.prems(1) i(3) u(2,3,4), folded g1_def, folded g2_def]
  have unf: "Insert_splice g upd n i lvl = Insert_splice g2 upd n (i + 1) lvl"
    unfolding g2_def g1_def by (rule Insert_splice_unfold[OF i(1,2) u(1) Suc.prems(1) i(3) u(2,3,4)])
  have d: "d = lvl - (i + 1)" using Suc(2) by simp
  have pre: "\<forall>j. i + 1 \<le> j \<and> j < lvl \<longrightarrow>
           (\<exists>u. upd ! j = Some u \<and> u < length g2 \<and> j < height g2 u \<and> u \<noteq> n)"
    using Suc.prems(4) st(1) st(2) by (metis Suc_eq_plus1 Suc_leD)
  from Suc(1)[OF d _ _ Suc.prems(3) pre] Suc.prems(1,2) st(1) st(2)[OF Suc.prems(1)]
  obtain g' where r: "Insert_splice g2 upd n (i + 1) lvl = Some g'" "length g' = length g2"
    and fr: "\<forall>p < length g2. Key (g' ! p) = Key (g2 ! p) \<and> Value (g' ! p) = Value (g2 ! p)
           \<and> Score (g' ! p) = Score (g2 ! p) \<and> Prev (g' ! p) = Prev (g2 ! p)
           \<and> height g' p = height g2 p
           \<and> (\<forall>k < height g2 p. nxt g' p k =
                 (if i + 1 \<le> k \<and> k < lvl
                  then (if upd ! k = Some p then Some n
                        else if p = n then nxt g2 (the (upd ! k)) k else nxt g2 p k)
                  else nxt g2 p k))"
    by auto
  have "\<forall>p < length g. Key (g' ! p) = Key (g ! p) \<and> Value (g' ! p) = Value (g ! p)
           \<and> Score (g' ! p) = Score (g ! p) \<and> Prev (g' ! p) = Prev (g ! p)
           \<and> height g' p = height g p
           \<and> (\<forall>k < height g p. nxt g' p k =
                 (if i \<le> k \<and> k < lvl
                  then (if upd ! k = Some p then Some n
                        else if p = n then nxt g (the (upd ! k)) k else nxt g p k)
                  else nxt g p k))"
  proof (intro allI impI conjI)
    fix p assume p: "p < length g"
    with fr st(1) st(2)[OF p] show "Key (g' ! p) = Key (g ! p)" "Value (g' ! p) = Value (g ! p)"
      "Score (g' ! p) = Score (g ! p)" "Prev (g' ! p) = Prev (g ! p)" "height g' p = height g p"
      by simp_all
    fix k assume k: "k < height g p"
    from fr p k st(1) st(2)[OF p] have a: "nxt g' p k =
                 (if i + 1 \<le> k \<and> k < lvl
                  then (if upd ! k = Some p then Some n
                        else if p = n then nxt g2 (the (upd ! k)) k else nxt g2 p k)
                  else nxt g2 p k)" by simp
    show "nxt g' p k =
                 (if i \<le> k \<and> k < lvl
                  then (if upd ! k = Some p then Some n
                        else if p = n then nxt g (the (upd ! k)) k else nxt g p k)
                  else nxt g p k)"
    proof (cases "i + 1 \<le> k \<and> k < lvl")
      case True
      with Suc.prems(4) obtain u' where u': "upd ! k = Some u'" "u' < length g" "k < height g u'"
        by (metis Suc_eq_plus1 Suc_leD)
      from True st(3)[OF u'(2,3)] st(3)[OF p k] a u' show ?thesis by simp
    next
      case False
      with a st(3)[OF p k] u i(1) show ?thesis by (cases "k = i") auto
    qed
  qed
  with unf r st(1) show ?case by simp
qed

lemma links_eq_refl: "links_eq h h"
  by (simp add: links_eq_def)

lemma links_eq_trans: "links_eq h h' \<Longrightarrow> links_eq h' h'' \<Longrightarrow> links_eq h h''"
  by (simp add: links_eq_def)

lemma links_eq_Prev: "links_eq h (h[p := (h ! p)\<lparr>Prev := v\<rparr>])"
  by (simp add: links_eq_def nth_upd)

lemma links_eq_height: "links_eq h h' \<Longrightarrow> p < length h \<Longrightarrow> height h' p = height h p"
  by (simp add: links_eq_def height_def)

lemma links_eq_nxt: "links_eq h h' \<Longrightarrow> p < length h \<Longrightarrow> nxt h' p k = nxt h p k"
  by (simp add: links_eq_def nxt_def)

lemma links_eq_length: "links_eq h h' \<Longrightarrow> length h' = length h"
  by (simp add: links_eq_def)

text \<open>The update vector that \<open>Insert\<close> hands to the splicing loop.\<close>

lemma Insert_update1:
  assumes len: "length upd = MaxLevel"
    and upd: "\<forall>i < MaxLevel. upd ! i = (if i < lv then Some (pr i) else None)"
    and top: "\<forall>i. lv \<le> i \<longrightarrow> pr i = hp"
    and lvl: "lvl \<le> MaxLevel"
  shows "\<exists>upd1. (if lv < lvl then Insert_fill upd hp lv lvl else Some upd) = Some upd1
           \<and> length upd1 = MaxLevel \<and> (\<forall>k < lvl. upd1 ! k = Some (pr k))"
proof (cases "lv < lvl")
  case True
  from Insert_fill_spec[of lvl upd hp lv] lvl len
  obtain upd1 where f: "Insert_fill upd hp lv lvl = Some upd1" "length upd1 = MaxLevel"
    and u: "\<forall>j < MaxLevel. upd1 ! j = (if lv \<le> j \<and> j < lvl then Some hp else upd ! j)"
    by auto
  have "\<forall>k < lvl. upd1 ! k = Some (pr k)"
  proof (intro allI impI)
    fix k assume "k < lvl"
    with lvl have k: "k < MaxLevel" by simp
    show "upd1 ! k = Some (pr k)"
      using u[rule_format, OF k] upd[rule_format, OF k] top \<open>k < lvl\<close>
      by (cases "lv \<le> k") auto
  qed
  with f True show ?thesis by simp
next
  case False
  with upd lvl len show ?thesis by auto
qed

lemma inserted_from_splice:
  assumes h1: "h1 = h @ [\<lparr>Key = key, Value = val, Score = score,
                          Next = replicate lvl None, Prev = None\<rparr>]"
    and n: "n = length h"
    and upd1: "\<forall>k < lvl. upd1 ! k = Some (pr k)"
    and pr: "\<forall>k < lvl. pr k < length h"
    and len2: "length h2 = length h1"
    and spec: "\<forall>p < length h1. Key (h2 ! p) = Key (h1 ! p) \<and> Value (h2 ! p) = Value (h1 ! p)
           \<and> Score (h2 ! p) = Score (h1 ! p) \<and> Prev (h2 ! p) = Prev (h1 ! p)
           \<and> height h2 p = height h1 p
           \<and> (\<forall>k < height h1 p. nxt h2 p k =
                 (if 0 \<le> k \<and> k < lvl
                  then (if upd1 ! k = Some p then Some n
                        else if p = n then nxt h1 (the (upd1 ! k)) k else nxt h1 p k)
                  else nxt h1 p k))"
    and le: "links_eq h2 hf"
  shows "inserted h hf n lvl pr key val score"
proof -
  have l1: "length h1 = Suc n" by (simp add: h1 n)
  have old: "\<And>p. p < n \<Longrightarrow> h1 ! p = h ! p" by (simp add: h1 n nth_append)
  have new: "h1 ! n = \<lparr>Key = key, Value = val, Score = score,
                          Next = replicate lvl None, Prev = None\<rparr>" by (simp add: h1 n)
  have oldh: "\<And>p. p < n \<Longrightarrow> height h1 p = height h p"
    and oldn: "\<And>p k. p < n \<Longrightarrow> nxt h1 p k = nxt h p k"
    by (simp_all add: height_def nxt_def old)
  have newh: "height h1 n = lvl" by (simp add: height_def new)
  from le have lf: "length hf = Suc n" by (simp add: links_eq_def len2 l1)
  have f2: "\<And>p. p < Suc n \<Longrightarrow> Key (hf ! p) = Key (h2 ! p) \<and> Value (hf ! p) = Value (h2 ! p)
      \<and> Score (hf ! p) = Score (h2 ! p) \<and> height hf p = height h2 p
      \<and> (\<forall>k. nxt hf p k = nxt h2 p k)"
    using le by (simp add: links_eq_def len2 l1 height_def nxt_def)
  have a: "Key (hf ! p) = Key (h ! p) \<and> Value (hf ! p) = Value (h ! p)
            \<and> Score (hf ! p) = Score (h ! p) \<and> height hf p = height h p
            \<and> (\<forall>k < height h p. nxt hf p k
                  = (if k < lvl \<and> pr k = p then Some n else nxt h p k))" if p: "p < n" for p
  proof -
    from p have p1: "p < length h1" "p < Suc n" "p \<noteq> n" by (simp_all add: l1)
    note s = spec[rule_format, OF p1(1)]
    have "nxt hf p k = (if k < lvl \<and> pr k = p then Some n else nxt h p k)"
      if k: "k < height h p" for k
    proof -
      from k p have "k < height h1 p" by (simp add: oldh)
      with s have "nxt h2 p k = (if 0 \<le> k \<and> k < lvl
                  then (if upd1 ! k = Some p then Some n
                        else if p = n then nxt h1 (the (upd1 ! k)) k else nxt h1 p k)
                  else nxt h1 p k)" by blast
      with f2[OF p1(2)] upd1 p1(3) oldn[OF p] show ?thesis by auto
    qed
    with s f2[OF p1(2)] old[OF p] oldh[OF p] show ?thesis by simp
  qed
  have b: "Key (hf ! n) = key \<and> Value (hf ! n) = val \<and> Score (hf ! n) = score
      \<and> height hf n = lvl"
    using spec[rule_format, of n] f2[of n] new newh by (simp add: l1)
  have c: "nxt hf n k = nxt h (pr k) k" if k: "k < lvl" for k
  proof -
    from k pr have pk: "pr k < n" "pr k \<noteq> n" by (auto simp: n)
    from k newh spec[rule_format, of n] have "nxt h2 n k = (if 0 \<le> k \<and> k < lvl
                  then (if upd1 ! k = Some n then Some n
                        else if n = n then nxt h1 (the (upd1 ! k)) k else nxt h1 n k)
                  else nxt h1 n k)" by (simp add: l1)
    with k upd1 pk have "nxt h2 n k = nxt h1 (pr k) k" by simp
    with f2[of n] oldn[OF pk(1)] show ?thesis by simp
  qed
  from a b c lf show ?thesis unfolding inserted_def using n by simp
qed

lemma links_eq_upd:
  "links_eq h g \<Longrightarrow> Key e = Key (g ! p) \<Longrightarrow> Value e = Value (g ! p) \<Longrightarrow>
   Score e = Score (g ! p) \<Longrightarrow> Next e = Next (g ! p) \<Longrightarrow> links_eq h (g[p := e])"
  by (simp add: links_eq_def nth_upd)

lemma Insert_new_run:
  assumes inv: "sl_shape sl ps" and ps: "ps = A @ B"
    and len: "length upd = MaxLevel"
    and upd: "\<forall>i < MaxLevel. upd ! i =
               (if i < level sl then Some (pred_at (heap sl) (head sl) i A) else None)"
  shows "\<exists>sl'. Insert_new sl key val score upd = Some (sl', length (heap sl))
      \<and> head sl' = head sl
      \<and> level sl' = max (level sl) (fst (randomLevel (randSrc sl)))
      \<and> length_sl sl' = length_sl sl + 1
      \<and> randSrc sl' = snd (randomLevel (randSrc sl))
      \<and> inserted (heap sl) (heap sl') (length (heap sl)) (fst (randomLevel (randSrc sl)))
           (\<lambda>i. pred_at (heap sl) (head sl) i A) key val score"
proof -
  let ?h = "heap sl" and ?hp = "head sl"
  define pr where "pr = (\<lambda>i. pred_at ?h ?hp i A)"
  define lvl where "lvl = fst (randomLevel (randSrc sl))"
  define rs where "rs = snd (randomLevel (randSrc sl))"
  define n where "n = length ?h"
  define new where "new = \<lparr>Key = key, Value = val, Score = score,
                          Next = replicate lvl None, Prev = None\<rparr>"
  define h1 where "h1 = ?h @ [new]"
  have rl: "randomLevel (randSrc sl) = (lvl, rs)" by (simp add: lvl_def rs_def)
  from randomLevel_bounds[of "randSrc sl"] have lvl: "1 \<le> lvl" "lvl \<le> MaxLevel"
    by (simp_all add: lvl_def)
  from inv have hp: "?hp < length ?h" "height ?h ?hp = MaxLevel" by (auto simp: sl_shape_def)
  from inv ps have hts: "\<forall>p \<in> set A. height ?h p \<le> level sl" by (auto simp: sl_shape_def)
  have top: "\<forall>i. level sl \<le> i \<longrightarrow> pr i = ?hp"
    unfolding pr_def using pred_at_top[OF hts] by blast
  have upd': "\<forall>i < MaxLevel. upd ! i = (if i < level sl then Some (pr i) else None)"
    using upd by (simp add: pr_def)
  from Insert_update1[OF len upd' top lvl(2)]
  obtain upd1 where u1: "(if level sl < lvl then Insert_fill upd ?hp (level sl) lvl else Some upd)
        = Some upd1" "length upd1 = MaxLevel" "\<forall>k < lvl. upd1 ! k = Some (pr k)" by blast
  have prv: "pr k < length ?h \<and> k < height ?h (pr k)" if "k < lvl" for k
  proof -
    from that lvl have k: "k < MaxLevel" by simp
    with inv ps have "path ?h k (nxt ?h ?hp k) (on_level ?h k (A @ B)) None"
      by (simp add: sl_shape_def)
    from pred_at_valid[OF hp(1) _ this] k hp(2) show ?thesis by (simp add: pr_def)
  qed
  have ne: "NewElement ?h key val score lvl = (h1, n)"
    by (simp add: NewElement_def h1_def new_def n_def)
  have l1: "length h1 = Suc n" by (simp add: h1_def n_def)
  have old: "\<And>p. p < n \<Longrightarrow> h1 ! p = ?h ! p" by (simp add: h1_def n_def nth_append)
  have newh: "height h1 n = lvl" by (simp add: height_def h1_def n_def new_def)
  have pre: "\<forall>j. 0 \<le> j \<and> j < lvl \<longrightarrow>
           (\<exists>u. upd1 ! j = Some u \<and> u < length h1 \<and> j < height h1 u \<and> u \<noteq> n)"
  proof (intro allI impI)
    fix j assume "0 \<le> j \<and> j < lvl"
    then have j: "j < lvl" by simp
    from prv[OF j] have "pr j < n" "j < height h1 (pr j)"
      by (simp_all add: n_def[symmetric] height_def old)
    with u1(3) j show "\<exists>u. upd1 ! j = Some u \<and> u < length h1 \<and> j < height h1 u \<and> u \<noteq> n"
      by (auto simp: l1)
  qed
  from Insert_splice_spec[of n h1 lvl upd1 0, OF _ _ _ pre] newh lvl u1(2) l1
  obtain h2 where sp: "Insert_splice h1 upd1 n 0 lvl = Some h2" and len2: "length h2 = length h1"
    and spec: "\<forall>p < length h1. Key (h2 ! p) = Key (h1 ! p) \<and> Value (h2 ! p) = Value (h1 ! p)
           \<and> Score (h2 ! p) = Score (h1 ! p) \<and> Prev (h2 ! p) = Prev (h1 ! p)
           \<and> height h2 p = height h1 p
           \<and> (\<forall>k < height h1 p. nxt h2 p k =
                 (if 0 \<le> k \<and> k < lvl
                  then (if upd1 ! k = Some p then Some n
                        else if p = n then nxt h1 (the (upd1 ! k)) k else nxt h1 p k)
                  else nxt h1 p k))"
    by auto
  have ins: "inserted ?h hf n lvl pr key val score" if "links_eq h2 hf" for hf
    using h1_def[unfolded new_def] n_def u1(3) _ len2 spec that
    by (rule inserted_from_splice) (use prv in simp)
  have i0: "index upd1 0 = Some (Some (pr 0))"
    using u1(2,3) lvl by (simp add: index_def MaxLevel_def)
  have d2: "deref h2 n = Some (h2 ! n)" by (simp add: deref_def len2 l1)
  note i2 = ins[OF links_eq_refl, unfolded inserted_def]
  from i2 have h2n: "height h2 n = lvl" and nx2: "\<forall>k < lvl. nxt h2 n k = nxt ?h (pr k) k"
    by blast+
  from h2n lvl have hn2: "0 < height h2 n" by simp
  from nx2 lvl have "nxt h2 n 0 = nxt ?h (pr 0) 0" by simp
  also have "\<dots> = (case B of [] \<Rightarrow> None | y # _ \<Rightarrow> Some y)"
  proof -
    from inv ps have "\<forall>p \<in> set A. 1 \<le> height ?h p" by (auto simp: sl_shape_def)
    then have "pr 0 = last (?hp # A)" by (simp add: pr_def pred_at_def on_level_0)
    with next0_inv(3)[OF inv ps] show ?thesis by simp
  qed
  finally have n0: "index (Next (h2 ! n)) 0 = Some (case B of [] \<Rightarrow> None | y # _ \<Rightarrow> Some y)"
    using index_nxt[OF hn2] by simp
  have l2: "length h2 = Suc n" by (simp add: len2 l1)
  have By: "y < n \<and> y < Suc n \<and> y \<noteq> n" if "B = y # ys" for y ys
    using that inv ps by (auto simp: sl_shape_def n_def)
  have "\<exists>sl'. Insert_new sl key val score upd = Some (sl', n)
      \<and> head sl' = head sl \<and> level sl' = max (level sl) lvl
      \<and> length_sl sl' = length_sl sl + 1 \<and> randSrc sl' = rs \<and> links_eq h2 (heap sl')"
    unfolding Insert_new_def rl
    by (cases B)
       (auto simp add: u1(1) ne sp i0 d2 n0 l2 deref_def max_def links_eq_refl
          intro!: links_eq_upd dest: By)
  then obtain sl' where r: "Insert_new sl key val score upd = Some (sl', n)"
      "head sl' = head sl" "level sl' = max (level sl) lvl"
      "length_sl sl' = length_sl sl + 1" "randSrc sl' = rs" "links_eq h2 (heap sl')" by blast
  from r ins[OF r(6)] show ?thesis
    by (auto simp: n_def lvl_def rs_def pr_def)
qed

lemma path_end: "path h i (nxt h x i) xs m \<Longrightarrow> m = nxt h (last (x # xs)) i"
  by (induction xs arbitrary: x) auto

lemma path_redirect:
  assumes "path h i (nxt h x i) xs m" and "distinct (x # xs)"
    and "\<forall>p \<in> set (x # xs). p < length h' \<and> height h' p = height h p
           \<and> nxt h' p i = (if p = last (x # xs) then t else nxt h p i)"
  shows "path h' i (nxt h' x i) xs t"
  using assms
proof (induction xs arbitrary: x)
  case Nil
  then show ?case by simp
next
  case (Cons y ys)
  from Cons.prems(2) have "x \<noteq> last (y # ys)"
    by (metis distinct.simps(2) last_in_set list.distinct(1))
  with Cons.prems(1,3) have x: "nxt h' x i = Some y" by simp
  from Cons.prems have "path h' i (nxt h' y i) ys t"
    by (intro Cons.IH) auto
  with x Cons.prems(1,3) show ?case by simp
qed

lemma on_level_cong:
  "\<forall>p \<in> set ps. height h' p = height h p \<Longrightarrow> on_level h' i ps = on_level h i ps"
  unfolding on_level_def by (rule filter_cong) auto

text \<open>The chain of one level after the new cell has been linked in.\<close>

lemma path_inserted:
  assumes pth: "path h i (nxt h hp i) (on_level h i (A @ B)) None"
    and hp: "hp < length h" "i < height h hp"
    and dist: "distinct (hp # A @ B)"
    and val: "\<forall>p \<in> set (A @ B). p < length h"
    and ins: "inserted h h' n lvl (\<lambda>i. pred_at h hp i A) key val score"
  shows "path h' i (nxt h' hp i) (on_level h' i (A @ n # B)) None"
proof -
  let ?oA = "on_level h i A" and ?oB = "on_level h i B"
  note I = ins[unfolded inserted_def]
  from I have n: "n = length h" "length h' = Suc (length h)" "height h' n = lvl" by blast+
  from I have old: "\<And>p. p < length h \<Longrightarrow> height h' p = height h p"
    and nx: "\<And>p k. p < length h \<Longrightarrow> k < height h p \<Longrightarrow>
        nxt h' p k = (if k < lvl \<and> pred_at h hp k A = p then Some n else nxt h p k)"
    and nn: "\<And>k. k < lvl \<Longrightarrow> nxt h' n k = nxt h (pred_at h hp k A) k"
    by blast+
  have oA: "on_level h' i A = ?oA" and oB: "on_level h' i B = ?oB"
    using val old by (simp_all add: on_level_cong)
  have ol: "on_level h' i (A @ n # B) = ?oA @ (if i < lvl then [n] else []) @ ?oB"
    using oB by (simp add: on_level_append oA) (simp add: on_level_def n(3))
  have inA: "\<And>q. q \<in> set ?oA \<Longrightarrow> q \<in> set A \<and> q < length h \<and> i < height h q"
    and inB: "\<And>q. q \<in> set ?oB \<Longrightarrow> q \<in> set B \<and> q < length h \<and> i < height h q"
    using val by (auto simp: set_on_level)
  show ?thesis
  proof (cases "i < lvl")
    case False
    have "path h' i (nxt h hp i) (on_level h i (A @ B)) None"
      using pth
    proof (rule path_frame)
      fix q assume "q \<in> set (on_level h i (A @ B))" "q < length h"
      then have "i < height h q" by (simp add: set_on_level)
      with \<open>q < length h\<close> False nx[of q i] old[of q] n(2)
      show "q < length h' \<and> height h' q = height h q \<and> nxt h' q i = nxt h q i" by simp
    qed
    with False nx[OF hp] show ?thesis unfolding ol by (simp add: on_level_append)
  next
    case True
    define x where "x = pred_at h hp i A"
    have xl: "x = last (hp # ?oA)" by (simp add: x_def pred_at_def)
    from pth obtain m where m: "path h i (nxt h hp i) ?oA m" "path h i m ?oB None"
      unfolding on_level_append path_append by blast
    from path_end[OF m(1)] have mx: "m = nxt h x i" by (simp add: xl)
    have dA: "distinct (hp # ?oA)" using dist by (auto simp: on_level_def)
    have a: "path h' i (nxt h' hp i) ?oA (Some n)"
      using m(1) dA
    proof (rule path_redirect)
      show "\<forall>p \<in> set (hp # ?oA). p < length h' \<and> height h' p = height h p
           \<and> nxt h' p i = (if p = last (hp # ?oA) then Some n else nxt h p i)"
      proof
        fix p assume "p \<in> set (hp # ?oA)"
        with hp inA have p: "p < length h" "i < height h p" by auto
        with nx[OF p] old[OF p(1)] n(2) True
        show "p < length h' \<and> height h' p = height h p
           \<and> nxt h' p i = (if p = last (hp # ?oA) then Some n else nxt h p i)"
          unfolding xl[symmetric] x_def by auto
      qed
    qed
    have xA: "x = hp \<or> x \<in> set A" using pred_at_cases[of h hp i A] by (auto simp: x_def)
    have b: "path h' i m ?oB None"
      using m(2)
    proof (rule path_frame)
      fix q assume "q \<in> set ?oB" "q < length h"
      with inB have q: "q \<in> set B" "i < height h q" by auto
      with xA dist have "x \<noteq> q" by auto
      with nx[OF \<open>q < length h\<close> q(2)] old[OF \<open>q < length h\<close>] n(2) \<open>q < length h\<close>
      show "q < length h' \<and> height h' q = height h q \<and> nxt h' q i = nxt h q i"
        by (simp add: x_def)
    qed
    from nn[OF True] mx have "nxt h' n i = m" by (simp add: x_def)
    with b n True have "path h' i (Some n) (n # ?oB) None" by simp
    with a have "path h' i (nxt h' hp i) (?oA @ n # ?oB) None"
      unfolding path_append by blast
    with True show ?thesis unfolding ol by simp
  qed
qed

lemma shape_inserted:
  assumes inv: "sl_shape sl ps" and ps: "ps = A @ B"
    and ins: "inserted (heap sl) (heap sl') n lvl (\<lambda>i. pred_at (heap sl) (head sl) i A)
                key val score"
    and lvl: "1 \<le> lvl" "lvl \<le> MaxLevel"
    and sl': "head sl' = head sl" "level sl' = max (level sl) lvl"
      "length_sl sl' = length_sl sl + 1"
  shows "sl_shape sl' (A @ n # B)"
proof -
  let ?h = "heap sl" and ?h' = "heap sl'" and ?hp = "head sl"
  note I = ins[unfolded inserted_def]
  from I have n: "n = length ?h" "length ?h' = Suc (length ?h)" "height ?h' n = lvl"
    "Key (?h' ! n) = key" "Score (?h' ! n) = score" by blast+
  from I have old: "\<And>p. p < length ?h \<Longrightarrow> height ?h' p = height ?h p
      \<and> Key (?h' ! p) = Key (?h ! p) \<and> Score (?h' ! p) = Score (?h ! p)"
    by blast
  note J = inv[unfolded sl_shape_def ps]
  from J have hp: "?hp < length ?h" "height ?h ?hp = MaxLevel" by blast+
  from J have val: "\<forall>p \<in> set (A @ B). p < length ?h" by blast
  from J have hts: "\<forall>p \<in> set (A @ B). 1 \<le> height ?h p \<and> height ?h p \<le> level sl" by blast
  from J have dist: "distinct (A @ B)" "?hp \<notin> set (A @ B)" by blast+
  from J have pths: "\<forall>i < MaxLevel. path ?h i (nxt ?h ?hp i) (on_level ?h i (A @ B)) None"
    by blast
  from J have lv: "1 \<le> level sl" "level sl \<le> MaxLevel" by blast+
  from J have ln: "length_sl sl = int (length (A @ B))" by blast
  have nfresh: "n \<notin> set (A @ B)" "n \<noteq> ?hp" using val hp n(1) by auto
  have 1: "head sl' < length ?h' \<and> height ?h' (head sl') = MaxLevel"
    using hp old[OF hp(1)] n(2) sl'(1) by simp
  have 2: "1 \<le> level sl' \<and> level sl' \<le> MaxLevel" using lv lvl sl'(2) by simp
  have 3: "distinct (A @ n # B) \<and> head sl' \<notin> set (A @ n # B)"
    using dist nfresh sl'(1) by auto
  have 4: "\<forall>p \<in> set (A @ n # B). p < length ?h' \<and> 1 \<le> height ?h' p
      \<and> height ?h' p \<le> level sl'"
  proof
    fix p assume "p \<in> set (A @ n # B)"
    then consider "p = n" | "p \<in> set (A @ B)" by auto
    then show "p < length ?h' \<and> 1 \<le> height ?h' p \<and> height ?h' p \<le> level sl'"
    proof cases
      case 1 with n lvl sl'(2) show ?thesis by simp
    next
      case 2
      then have pv: "p < length ?h" and ph: "1 \<le> height ?h p" "height ?h p \<le> level sl"
        using val hts by blast+
      with old[OF pv] n(2) sl'(2) show ?thesis by (simp add: le_max_iff_disj)
    qed
  qed
  have 6: "\<forall>i < MaxLevel. path ?h' i (nxt ?h' (head sl') i) (on_level ?h' i (A @ n # B)) None"
  proof (intro allI impI)
    fix i assume i: "i < MaxLevel"
    from pths i have "path ?h i (nxt ?h ?hp i) (on_level ?h i (A @ B)) None" by simp
    then show "path ?h' i (nxt ?h' (head sl') i) (on_level ?h' i (A @ n # B)) None"
      unfolding sl'(1) using hp(1) _ _ val ins
      by (rule path_inserted) (use hp i dist in auto)
  qed
  have 7: "length_sl sl' = int (length (A @ n # B))" using ln sl'(3) by simp
  from 1 2 3 4 6 7 show ?thesis unfolding sl_shape_def by blast
qed

text \<open>The new element keeps the order when neither it nor an element after it is NaN.\<close>

lemma sorted_inserted:
  assumes srt: "sorted_wrt (\<lambda>p q. elt_less (h ! p) (h ! q)) (A @ B)"
    and val: "\<forall>p \<in> set (A @ B). p < length h"
    and old: "\<forall>p < length h. Key (h' ! p) = Key (h ! p) \<and> Score (h' ! p) = Score (h ! p)"
    and new: "Key (h' ! n) = key" "Score (h' ! n) = score"
    and A: "\<forall>a \<in> set A. before score key (h ! a)"
    and B: "\<forall>b \<in> set B. \<not> before score key (h ! b)
              \<and> \<not> (feq (Score (h ! b)) score \<and> Key (h ! b) = key)"
    and ok: "score \<noteq> NaN" "\<forall>b \<in> set B. Score (h ! b) \<noteq> NaN"
  shows "sorted_wrt (\<lambda>p q. elt_less (h' ! p) (h' ! q)) (A @ n # B)"
proof -
  have eqless: "\<And>p q. p < length h \<Longrightarrow> q < length h \<Longrightarrow>
      elt_less (h' ! p) (h' ! q) = elt_less (h ! p) (h ! q)"
    using old by (simp add: elt_less_def before_def)
  have An: "\<forall>a \<in> set A. elt_less (h' ! a) (h' ! n)"
    using A val old new by (simp add: elt_less_def before_def)
  have nB: "\<forall>b \<in> set B. elt_less (h' ! n) (h' ! b)"
  proof
    fix b assume b: "b \<in> set B"
    with val have bl: "b < length h" by simp
    with B b old have nb: "\<not> before score key (h' ! b)"
      "\<not> (feq (Score (h' ! b)) score \<and> Key (h' ! b) = key)"
      by (simp_all add: before_def)
    from ok(2) b bl old have "Score (h' ! b) \<noteq> NaN" by simp
    with nb new(2) new(1) ok(1) show "elt_less (h' ! n) (h' ! b)"
      by (rule elt_less_after)
  qed
  have "sorted_wrt (\<lambda>p q. elt_less (h' ! p) (h' ! q)) (A @ B)"
    using _ srt by (rule sorted_wrt_mono_rel) (use val eqless in auto)
  then show ?thesis using An nB by (auto simp: sorted_wrt_append)
qed

lemma lookup_None_from_on:
  assumes "sorted_wrt (\<lambda>p q. elt_less (h ! p) (h ! q)) ps"
    and "lookup h ps key score = None"
  shows "\<forall>b \<in> set (from_on h score key ps). \<not> before score key (h ! b)
              \<and> \<not> (feq (Score (h ! b)) score \<and> Key (h ! b) = key)"
proof
  fix b assume b: "b \<in> set (from_on h score key ps)"
  then have "b \<in> set ps" using below_from_on[of h score key ps]
    by (metis Un_iff set_append)
  with assms lookup_None[OF assms(1)] from_on_not_before[OF assms(1) b]
  show "\<not> before score key (h ! b) \<and> \<not> (feq (Score (h ! b)) score \<and> Key (h ! b) = key)"
    by blast
qed

text \<open>
  \<open>Insert\<close> when the descent cuts the list into \<open>A\<close> and \<open>B\<close> and the first element of \<open>B\<close>
  is not a match: a new cell is linked between them, whatever the order of the list.
\<close>

lemma Insert_at:
  assumes sh: "sl_shape sl ps" and ps: "ps = A @ B"
    and A: "\<forall>a \<in> set A. before score key (heap sl ! a)"
    and B: "\<forall>b \<in> set B. \<not> before score key (heap sl ! b)"
    and miss: "\<forall>y zs. B = y # zs \<longrightarrow>
                 \<not> (feq (Score (heap sl ! y)) score \<and> Key (heap sl ! y) = key)"
  shows "\<exists>sl'. Insert sl key val score = Some (sl', length (heap sl))
      \<and> sl_shape sl' (A @ length (heap sl) # B)
      \<and> head sl' = head sl
      \<and> length_sl sl' = length_sl sl + 1
      \<and> length (heap sl') = Suc (length (heap sl))
      \<and> (\<forall>p < length (heap sl). Key (heap sl' ! p) = Key (heap sl ! p)
            \<and> Value (heap sl' ! p) = Value (heap sl ! p)
            \<and> Score (heap sl' ! p) = Score (heap sl ! p))
      \<and> Key (heap sl' ! length (heap sl)) = key
      \<and> Value (heap sl' ! length (heap sl)) = val
      \<and> Score (heap sl' ! length (heap sl)) = score"
proof -
  let ?h = "heap sl"
  from locate_at(1)[OF sh ps A B] obtain upd where
    w: "walk ?h (before score key) (level sl) (head sl) (replicate MaxLevel None)
         = Some (last (head sl # A), upd)"
    and len: "length upd = MaxLevel"
    and upd: "\<forall>i < MaxLevel. upd ! i =
            (if i < level sl then Some (pred_at ?h (head sl) i A) else None)" by blast
  have hitNone: "(case (case B of [] \<Rightarrow> None | y # _ \<Rightarrow> Some y) of
                 None \<Rightarrow> Some None
               | Some y \<Rightarrow>
                   do {
                     ey \<leftarrow> deref ?h y;
                     Some (if feq (Score ey) score \<and> bytes_Equal (Key ey) key then Some y else None)
                   }) = Some None"
  proof (cases B)
    case Nil then show ?thesis by simp
  next
    case (Cons y zs)
    with miss have "\<not> (feq (Score (?h ! y)) score \<and> Key (?h ! y) = key)" by blast
    moreover from sh ps Cons have "y < length ?h" by (simp add: sl_shape_def)
    ultimately show ?thesis using Cons
      by (auto simp: deref_valid bytes_Equal_def)
  qed
  have run: "Insert sl key val score = Insert_new sl key val score upd"
    unfolding Insert_def using locate_at(3,4)[OF sh ps A B]
    by (simp add: w hitNone del: last.simps)
  from Insert_new_run[OF sh ps len upd, of key val score]
  obtain sl' where r: "Insert_new sl key val score upd = Some (sl', length ?h)"
      "head sl' = head sl"
      "level sl' = max (level sl) (fst (randomLevel (randSrc sl)))"
      "length_sl sl' = length_sl sl + 1"
    and ins: "inserted ?h (heap sl') (length ?h) (fst (randomLevel (randSrc sl)))
           (\<lambda>i. pred_at ?h (head sl) i A) key val score" by blast
  from randomLevel_bounds[of "randSrc sl"]
  have lvl: "1 \<le> fst (randomLevel (randSrc sl))" "fst (randomLevel (randSrc sl)) \<le> MaxLevel"
    by auto
  have "sl_shape sl' (A @ length ?h # B)"
    using sh ps ins lvl r(2,3,4) by (rule shape_inserted)
  with run r ins[unfolded inserted_def] show ?thesis by auto
qed

text \<open>\<open>Insert\<close> of a (score, key) that is not in the list.\<close>

lemma Insert_fresh:
  assumes inv: "sl_inv sl ps" and miss: "lookup (heap sl) ps key score = None"
    and ok: "score \<noteq> NaN" "no_NaN (heap sl) ps"
  shows "\<exists>sl'. Insert sl key val score = Some (sl', length (heap sl))
      \<and> sl_inv sl' (below (heap sl) score key ps @ length (heap sl) # from_on (heap sl) score key ps)
      \<and> head sl' = head sl
      \<and> length (heap sl') = Suc (length (heap sl))
      \<and> (\<forall>p < length (heap sl). Key (heap sl' ! p) = Key (heap sl ! p)
            \<and> Value (heap sl' ! p) = Value (heap sl ! p)
            \<and> Score (heap sl' ! p) = Score (heap sl ! p))
      \<and> Key (heap sl' ! length (heap sl)) = key
      \<and> Value (heap sl' ! length (heap sl)) = val
      \<and> Score (heap sl' ! length (heap sl)) = score"
proof -
  let ?h = "heap sl"
  let ?A = "below ?h score key ps" and ?B = "from_on ?h score key ps"
  have ps: "ps = ?A @ ?B" by (simp add: below_from_on)
  from inv have srt: "sorted_wrt (\<lambda>p q. elt_less (?h ! p) (?h ! q)) ps" by (simp add: sl_inv_def)
  have A: "\<forall>a \<in> set ?A. before score key (?h ! a)" by (auto dest: below_before)
  note B = lookup_None_from_on[OF srt miss]
  from B have B1: "\<forall>b \<in> set ?B. \<not> before score key (?h ! b)" by blast
  from B have B2: "\<forall>y zs. ?B = y # zs \<longrightarrow>
                 \<not> (feq (Score (?h ! y)) score \<and> Key (?h ! y) = key)" by auto
  from Insert_at[OF sl_inv_shape[OF inv] ps A B1 B2, of val]
  obtain sl' where r: "Insert sl key val score = Some (sl', length ?h)"
    and sh': "sl_shape sl' (?A @ length ?h # ?B)"
    and rest: "head sl' = head sl" "length (heap sl') = Suc (length ?h)"
      "\<forall>p < length ?h. Key (heap sl' ! p) = Key (?h ! p)
            \<and> Value (heap sl' ! p) = Value (?h ! p)
            \<and> Score (heap sl' ! p) = Score (?h ! p)"
      "Key (heap sl' ! length ?h) = key" "Value (heap sl' ! length ?h) = val"
      "Score (heap sl' ! length ?h) = score" by blast
  from inv have val: "\<forall>p \<in> set (?A @ ?B). p < length ?h"
    by (simp add: below_from_on sl_inv_def)
  from rest(3) have old: "\<forall>p < length ?h. Key (heap sl' ! p) = Key (?h ! p)
      \<and> Score (heap sl' ! p) = Score (?h ! p)" by blast
  have nB: "\<forall>b \<in> set ?B. Score (?h ! b) \<noteq> NaN"
  proof
    fix b assume "b \<in> set ?B"
    then have "b \<in> set ps" using below_from_on[of ?h score key ps]
      by (metis Un_iff set_append)
    with ok(2) show "Score (?h ! b) \<noteq> NaN" by (simp add: no_NaN_def)
  qed
  have "sorted_wrt (\<lambda>p q. elt_less (heap sl' ! p) (heap sl' ! q)) (?A @ length ?h # ?B)"
    using srt[unfolded ps[symmetric]] val old rest(4,6) A B ok(1) nB
    by (intro sorted_inserted[where h = ?h]) (simp_all add: below_from_on)
  with sh' have "sl_inv sl' (?A @ length ?h # ?B)" by (simp add: sl_inv_iff)
  with r rest show ?thesis by blast
qed

lemma NewSkipList_inv: "sl_inv (NewSkipList rs) []"
  by (simp add: sl_inv_def NewSkipList_def NewElement_def height_def nxt_def on_level_def
      MaxLevel_def)

lemma NewSkiplistKVStore_inv: "kv_inv (NewSkiplistKVStore rs) []"
  by (simp add: kv_inv_def NewSkiplistKVStore_def NewSkipList_inv)

lemma sl_inv_valid: "sl_inv sl ps \<Longrightarrow> p \<in> set ps \<Longrightarrow> p < length (heap sl)"
  by (simp add: sl_inv_def)

lemma sl_inv_sorted:
  "sl_inv sl ps \<Longrightarrow> sorted_wrt (\<lambda>p q. elt_less (heap sl ! p) (heap sl ! q)) ps"
  by (simp add: sl_inv_def)

text \<open>Both cases of \<open>Insert\<close> in one statement.\<close>

lemma Insert_spec:
  assumes inv: "sl_inv sl ps" and ok: "score \<noteq> NaN" "no_NaN (heap sl) ps"
  shows "\<exists>sl' p ps'. Insert sl key val score = Some (sl', p) \<and> sl_inv sl' ps'
      \<and> no_NaN (heap sl') ps'
      \<and> head sl' = head sl
      \<and> set ps' = insert p (set ps)
      \<and> lookup (heap sl') ps' key score = Some p
      \<and> Key (heap sl' ! p) = key \<and> Value (heap sl' ! p) = val \<and> Score (heap sl' ! p) = score
      \<and> (\<forall>q \<in> set ps. q \<noteq> p \<longrightarrow> Key (heap sl' ! q) = Key (heap sl ! q)
            \<and> Value (heap sl' ! q) = Value (heap sl ! q)
            \<and> Score (heap sl' ! q) = Score (heap sl ! q))
      \<and> (lookup (heap sl) ps key score = None \<longrightarrow> p \<notin> set ps)
      \<and> (lookup (heap sl) ps key score \<noteq> None \<longrightarrow> lookup (heap sl) ps key score = Some p
            \<and> ps' = ps)"
proof (cases "lookup (heap sl) ps key score")
  case None
  let ?h = "heap sl" and ?n = "length (heap sl)"
  from Insert_fresh[OF inv None ok, of val] obtain sl' where
    r: "Insert sl key val score = Some (sl', ?n)"
    and inv': "sl_inv sl' (below ?h score key ps @ ?n # from_on ?h score key ps)"
    and hd: "head sl' = head sl"
    and old: "\<forall>p < ?n. Key (heap sl' ! p) = Key (?h ! p)
            \<and> Value (heap sl' ! p) = Value (?h ! p) \<and> Score (heap sl' ! p) = Score (?h ! p)"
    and new: "Key (heap sl' ! ?n) = key" "Value (heap sl' ! ?n) = val"
      "Score (heap sl' ! ?n) = score" by blast
  let ?ps' = "below ?h score key ps @ ?n # from_on ?h score key ps"
  have st: "set ?ps' = insert ?n (set ps)"
    using below_from_on[of ?h score key ps] by (metis Un_insert_right list.simps(15) set_append)
  have lk: "lookup (heap sl') ?ps' key score = Some ?n"
    unfolding lookup_Some[OF sl_inv_sorted[OF inv']] using new ok(1) by (simp add: feq_def)
  have fr: "?n \<notin> set ps" using sl_inv_valid[OF inv] by auto
  have "\<forall>q \<in> set ps. q \<noteq> ?n \<longrightarrow> Key (heap sl' ! q) = Key (?h ! q)
            \<and> Value (heap sl' ! q) = Value (?h ! q) \<and> Score (heap sl' ! q) = Score (?h ! q)"
    using old sl_inv_valid[OF inv] by blast
  moreover have "no_NaN (heap sl') ?ps'"
    unfolding no_NaN_def st using ok new(3) old sl_inv_valid[OF inv]
    by (auto simp: no_NaN_def)
  ultimately show ?thesis using r inv' hd st lk new fr None
    by (intro exI[of _ sl'] exI[of _ ?n] exI[of _ ?ps'] conjI; (assumption | simp))
next
  case (Some y)
  let ?h = "heap sl"
  let ?sl' = "sl\<lparr>heap := ?h[y := (?h ! y)\<lparr>Value := val\<rparr>]\<rparr>"
  from Some lookup_Some[OF sl_inv_sorted[OF inv]]
  have y: "y \<in> set ps" "feq (Score (?h ! y)) score" "Key (?h ! y) = key" by blast+
  then have yv: "y < length ?h" using sl_inv_valid[OF inv] by simp
  have r: "Insert sl key val score = Some (?sl', y)" by (rule Insert_existing[OF inv Some])
  have inv': "sl_inv ?sl' ps" by (rule sl_inv_set_value[OF inv y(1)])
  have new: "Key (heap ?sl' ! y) = key" "Value (heap ?sl' ! y) = val" "Score (heap ?sl' ! y) = score"
    using y yv by (simp_all add: feq_def)
  have lk: "lookup (heap ?sl') ps key score = Some y"
    unfolding lookup_Some[OF sl_inv_sorted[OF inv']] using new y(1) ok(1) by (simp add: feq_def)
  have old: "\<forall>q \<in> set ps. q \<noteq> y \<longrightarrow> Key (heap ?sl' ! q) = Key (?h ! q)
            \<and> Value (heap ?sl' ! q) = Value (?h ! q) \<and> Score (heap ?sl' ! q) = Score (?h ! q)"
    by simp
  have st: "set ps = insert y (set ps)" using y(1) by auto
  have hd: "head ?sl' = head sl" by simp
  have nn: "no_NaN (heap ?sl') ps"
    using ok(2) sl_inv_valid[OF inv] by (simp add: no_NaN_def nth_upd)
  from r inv' nn hd st lk new old Some show ?thesis
    by (intro exI[of _ ?sl'] exI[of _ y] exI[of _ ps] conjI; (assumption | simp))
qed

text \<open>
  \<open>Insert\<close> on a well-formed list, whatever the score: it returns, and a \<open>Search\<close> for a
  score that is not NaN finds the cell it returned, with the value given.
\<close>

lemma sl_inv_cut:
  assumes inv: "sl_inv sl ps"
  shows "\<forall>a \<in> set (below (heap sl) score key ps). before score key (heap sl ! a)"
    and "\<forall>b \<in> set (from_on (heap sl) score key ps). \<not> before score key (heap sl ! b)"
  using from_on_not_before[OF sl_inv_sorted[OF inv]] by (auto dest: below_before)

lemma Insert_total:
  assumes inv: "sl_inv sl ps"
  shows "\<exists>sl' p. Insert sl key val score = Some (sl', p)"
proof (cases "lookup (heap sl) ps key score")
  case None
  let ?h = "heap sl"
  let ?A = "below ?h score key ps" and ?B = "from_on ?h score key ps"
  have ps: "ps = ?A @ ?B" by (simp add: below_from_on)
  from lookup_None_from_on[OF sl_inv_sorted[OF inv] None]
  have B2: "\<forall>y zs. ?B = y # zs \<longrightarrow>
                 \<not> (feq (Score (?h ! y)) score \<and> Key (?h ! y) = key)" by auto
  from Insert_at[OF sl_inv_shape[OF inv] ps sl_inv_cut[OF inv] B2, of val]
  show ?thesis by blast
next
  case (Some y)
  from Insert_existing[OF inv Some] show ?thesis by blast
qed

lemma Insert_Search:
  assumes inv: "sl_inv sl ps" and ok: "score \<noteq> NaN"
  shows "\<exists>sl' p. Insert sl key val score = Some (sl', p)
           \<and> Search sl' key score = Some (Some p)
           \<and> p < length (heap sl') \<and> Value (heap sl' ! p) = val"
proof (cases "lookup (heap sl) ps key score")
  case None
  let ?h = "heap sl"
  let ?A = "below ?h score key ps" and ?B = "from_on ?h score key ps" and ?n = "length (heap sl)"
  have ps: "ps = ?A @ ?B" by (simp add: below_from_on)
  note cut = sl_inv_cut[OF inv, of score key]
  from lookup_None_from_on[OF sl_inv_sorted[OF inv] None]
  have B2: "\<forall>y zs. ?B = y # zs \<longrightarrow>
                 \<not> (feq (Score (?h ! y)) score \<and> Key (?h ! y) = key)" by auto
  from Insert_at[OF sl_inv_shape[OF inv] ps cut B2, of val]
  obtain sl' where r: "Insert sl key val score = Some (sl', ?n)"
    and sh': "sl_shape sl' (?A @ ?n # ?B)"
    and len: "length (heap sl') = Suc ?n"
    and old: "\<forall>p < ?n. Key (heap sl' ! p) = Key (?h ! p)
            \<and> Value (heap sl' ! p) = Value (?h ! p)
            \<and> Score (heap sl' ! p) = Score (?h ! p)"
    and new: "Key (heap sl' ! ?n) = key" "Value (heap sl' ! ?n) = val"
      "Score (heap sl' ! ?n) = score" by blast
  have val: "\<forall>p \<in> set ps. p < ?n" using sl_inv_valid[OF inv] by blast
  have same: "before score key (heap sl' ! p) = before score key (?h ! p)" if "p \<in> set ps" for p
    using that val old by (simp add: before_def)
  have sA: "set ?A \<subseteq> set ps" and sB: "set ?B \<subseteq> set ps"
    using below_from_on[of ?h score key ps] by (metis Un_upper1 Un_upper2 set_append)+
  have a': "\<forall>a \<in> set ?A. before score key (heap sl' ! a)"
    using cut(1) same sA by blast
  have b': "\<forall>b \<in> set (?n # ?B). \<not> before score key (heap sl' ! b)"
    using cut(2) same sB new ok by (auto simp: before_irrefl feq_def)
  from Search_at[OF sh' refl a' b'] new ok
  have "Search sl' key score = Some (Some ?n)" by (simp add: feq_def)
  with r len new(2) show ?thesis by simp
next
  case (Some y)
  let ?h = "heap sl"
  let ?sl' = "sl\<lparr>heap := ?h[y := (?h ! y)\<lparr>Value := val\<rparr>]\<rparr>"
  from Some lookup_Some[OF sl_inv_sorted[OF inv]]
  have y: "y \<in> set ps" "feq (Score (?h ! y)) score" "Key (?h ! y) = key" by blast+
  then have yv: "y < length ?h" using sl_inv_valid[OF inv] by simp
  have r: "Insert sl key val score = Some (?sl', y)" by (rule Insert_existing[OF inv Some])
  have inv': "sl_inv ?sl' ps" by (rule sl_inv_set_value[OF inv y(1)])
  have "lookup (heap ?sl') ps key score = Some y"
    unfolding lookup_Some[OF sl_inv_sorted[OF inv']] using y yv by simp
  with Search_spec[OF inv', of key score] r yv show ?thesis by simp
qed

lemma traverse_path: "path h i s qs None \<Longrightarrow> traverse h i s = Some qs"
proof (induction qs arbitrary: s)
  case Nil
  then show ?case by (subst traverse.simps) simp
next
  case (Cons q qs)
  then have "traverse h i (nxt h q i) = Some qs" by simp
  with Cons.prems show ?case
    by (subst traverse.simps) (simp add: deref_def index_def height_def nxt_def)
qed

lemma level_list_at:
  assumes "sl_shape sl ps" and "i < MaxLevel"
  shows "level_list sl i = Some (on_level (heap sl) i ps)"
proof -
  from assms have hp: "head sl < length (heap sl)" "i < height (heap sl) (head sl)"
    and p: "path (heap sl) i (nxt (heap sl) (head sl) i) (on_level (heap sl) i ps) None"
    by (auto simp: sl_shape_def)
  from traverse_path[OF p] hp show ?thesis
    by (simp add: level_list_def deref_valid index_nxt)
qed

lemma level_list_at_0:
  assumes "sl_shape sl ps"
  shows "level_list sl 0 = Some ps"
proof -
  from assms have "\<forall>p \<in> set ps. 1 \<le> height (heap sl) p" by (simp add: sl_shape_def)
  with level_list_at[OF assms, of 0] show ?thesis by (simp add: on_level_0 MaxLevel_def)
qed

lemma level_list_inv:
  assumes "sl_inv sl ps" and "i < MaxLevel"
  shows "level_list sl i = Some (on_level (heap sl) i ps)"
  using sl_inv_shape[OF assms(1)] assms(2) by (rule level_list_at)

lemma level_list_0:
  assumes "sl_inv sl ps"
  shows "level_list sl 0 = Some ps"
  using sl_inv_shape[OF assms] by (rule level_list_at_0)

lemma float64_nonneg: "0 \<le> float64_of_uint64 w"
  unfolding float64_of_uint64_def Let_def by (simp only: of_nat_0_le_iff if_split) simp

lemma score_of_nonneg: "\<exists>r. score_of key = Finite r \<and> 0 \<le> r"
  by (simp add: score_of_def float64_nonneg)

lemma Delete_unsplice_spec:
  assumes "lvl \<le> length upd" "x < length g"
    and "\<forall>j. i \<le> j \<and> j < lvl \<longrightarrow>
           (\<exists>u. upd ! j = Some u \<and> u < length g \<and> j < height g u \<and> u \<noteq> x
                \<and> (nxt g u j = Some x \<longleftrightarrow> j < height g x))"
  shows "\<exists>g'. Delete_unsplice g upd x i lvl = Some g' \<and> length g' = length g
     \<and> (\<forall>p < length g. Key (g' ! p) = Key (g ! p) \<and> Value (g' ! p) = Value (g ! p)
           \<and> Score (g' ! p) = Score (g ! p) \<and> Prev (g' ! p) = Prev (g ! p)
           \<and> height g' p = height g p
           \<and> (\<forall>k < height g p. nxt g' p k =
                 (if i \<le> k \<and> k < lvl \<and> k < height g x \<and> upd ! k = Some p
                  then nxt g x k else nxt g p k)))"
  using assms
proof (induction "lvl - i" arbitrary: i g)
  case 0
  then show ?case by (subst Delete_unsplice.simps) auto
next
  case (Suc d)
  then have i: "i < lvl" "i < length upd" by auto
  from Suc.prems(3) i obtain u where u: "upd ! i = Some u" "u < length g" "i < height g u"
    "u \<noteq> x" "nxt g u i = Some x \<longleftrightarrow> i < height g x"
    by (metis order_refl)
  show ?case
  proof (cases "i < height g x")
    case False
    with u have "nxt g u i \<noteq> Some x" by simp
    with i u have "Delete_unsplice g upd x i lvl = Some g"
      by (subst Delete_unsplice.simps) (simp add: index_def deref_def height_def nxt_def)
    with False show ?thesis by auto
  next
    case True
    define g2 where "g2 = g[u := (g ! u)\<lparr>Next := (Next (g ! u))[i := nxt g x i]\<rparr>]"
    have l2: "length g2 = length g" by (simp add: g2_def)
    have f2: "Key (g2 ! p) = Key (g ! p) \<and> Value (g2 ! p) = Value (g ! p)
           \<and> Score (g2 ! p) = Score (g ! p) \<and> Prev (g2 ! p) = Prev (g ! p)
           \<and> height g2 p = height g p" if "p < length g" for p
      using that by (simp add: g2_def nth_upd height_def)
    have n2: "nxt g2 p k = (if p = u \<and> k = i then nxt g x i else nxt g p k)"
      if "p < length g" "k < height g p" for p k
      using that u(3) by (auto simp add: g2_def nth_upd height_def nxt_def)
    from True u i Suc.prems(2)
    have unf: "Delete_unsplice g upd x i lvl = Delete_unsplice g2 upd x (i + 1) lvl"
      by (subst Delete_unsplice.simps)
         (simp add: index_def deref_def height_def nxt_def g2_def)
    have d: "d = lvl - (i + 1)" using Suc(2) by simp
    have hx: "height g2 x = height g x" using f2[OF Suc.prems(2)] by simp
    have pre: "\<forall>j. i + 1 \<le> j \<and> j < lvl \<longrightarrow>
           (\<exists>u. upd ! j = Some u \<and> u < length g2 \<and> j < height g2 u \<and> u \<noteq> x
                \<and> (nxt g2 u j = Some x \<longleftrightarrow> j < height g2 x))"
    proof (intro allI impI)
      fix j assume j: "i + 1 \<le> j \<and> j < lvl"
      with Suc.prems(3) obtain u' where u': "upd ! j = Some u'" "u' < length g" "j < height g u'"
        "u' \<noteq> x" "nxt g u' j = Some x \<longleftrightarrow> j < height g x"
        by (metis Suc_eq_plus1 Suc_leD)
      from n2[OF u'(2,3)] j have "nxt g2 u' j = nxt g u' j" by simp
      with u' f2[OF u'(2)] l2 hx
      show "\<exists>u. upd ! j = Some u \<and> u < length g2 \<and> j < height g2 u \<and> u \<noteq> x
                \<and> (nxt g2 u j = Some x \<longleftrightarrow> j < height g2 x)" by simp
    qed
    from Suc(1)[OF d Suc.prems(1) _ pre] Suc.prems(2) l2
    obtain g' where r: "Delete_unsplice g2 upd x (i + 1) lvl = Some g'" "length g' = length g2"
      and fr: "\<forall>p < length g2. Key (g' ! p) = Key (g2 ! p) \<and> Value (g' ! p) = Value (g2 ! p)
           \<and> Score (g' ! p) = Score (g2 ! p) \<and> Prev (g' ! p) = Prev (g2 ! p)
           \<and> height g' p = height g2 p
           \<and> (\<forall>k < height g2 p. nxt g' p k =
                 (if i + 1 \<le> k \<and> k < lvl \<and> k < height g2 x \<and> upd ! k = Some p
                  then nxt g2 x k else nxt g2 p k))"
      by auto
    have "\<forall>p < length g. Key (g' ! p) = Key (g ! p) \<and> Value (g' ! p) = Value (g ! p)
           \<and> Score (g' ! p) = Score (g ! p) \<and> Prev (g' ! p) = Prev (g ! p)
           \<and> height g' p = height g p
           \<and> (\<forall>k < height g p. nxt g' p k =
                 (if i \<le> k \<and> k < lvl \<and> k < height g x \<and> upd ! k = Some p
                  then nxt g x k else nxt g p k))"
    proof (intro allI impI conjI)
      fix p assume p: "p < length g"
      with fr l2 f2[OF p] show "Key (g' ! p) = Key (g ! p)" "Value (g' ! p) = Value (g ! p)"
        "Score (g' ! p) = Score (g ! p)" "Prev (g' ! p) = Prev (g ! p)" "height g' p = height g p"
        by simp_all
      fix k assume k: "k < height g p"
      from fr p k l2 f2[OF p] hx have a: "nxt g' p k =
                 (if i + 1 \<le> k \<and> k < lvl \<and> k < height g x \<and> upd ! k = Some p
                  then nxt g2 x k else nxt g2 p k)" by simp
      have xk: "k < height g x \<Longrightarrow> nxt g2 x k = nxt g x k"
        using n2[OF Suc.prems(2), of k] u(4) by simp
      show "nxt g' p k =
                 (if i \<le> k \<and> k < lvl \<and> k < height g x \<and> upd ! k = Some p
                  then nxt g x k else nxt g p k)"
      proof (cases "k = i")
        case True
        with a n2[OF p k] u(1) i \<open>i < height g x\<close> show ?thesis by auto
      next
        case False
        with a n2[OF p k] xk show ?thesis by auto
      qed
    qed
    with unf r l2 show ?thesis by simp
  qed
qed

lemma Delete_shrink_spec:
  assumes "hp < length h" "lvl \<le> height h hp" "1 \<le> lvl"
  shows "\<exists>l. Delete_shrink h hp lvl = Some l \<and> 1 \<le> l \<and> l \<le> lvl
           \<and> (\<forall>i. l \<le> i \<and> i < lvl \<longrightarrow> nxt h hp i = None)"
  using assms
proof (induction lvl)
  case 0
  then show ?case by simp
next
  case (Suc n)
  show ?case
  proof (cases "Suc n > 1 \<and> nxt h hp n = None")
    case True
    with Suc.prems have "1 \<le> n" "n \<le> height h hp" by auto
    from Suc.IH[OF Suc.prems(1) this(2,1)] obtain l where l: "Delete_shrink h hp n = Some l"
      "1 \<le> l" "l \<le> n" "\<forall>i. l \<le> i \<and> i < n \<longrightarrow> nxt h hp i = None" by blast
    from True Suc.prems have "Delete_shrink h hp (Suc n) = Delete_shrink h hp n"
      by (subst Delete_shrink.simps) (simp add: deref_def index_def height_def nxt_def)
    with l True show ?thesis by (auto simp: less_Suc_eq)
  next
    case False
    with Suc.prems have "Delete_shrink h hp (Suc n) = Some (Suc n)"
      by (subst Delete_shrink.simps) (auto simp: deref_def index_def height_def nxt_def)
    then show ?thesis by auto
  qed
qed

lemma removed_from_unsplice:
  assumes len: "length h1 = length h"
    and spec: "\<forall>p < length h. Key (h1 ! p) = Key (h ! p) \<and> Value (h1 ! p) = Value (h ! p)
           \<and> Score (h1 ! p) = Score (h ! p) \<and> Prev (h1 ! p) = Prev (h ! p)
           \<and> height h1 p = height h p
           \<and> (\<forall>k < height h p. nxt h1 p k =
                 (if 0 \<le> k \<and> k < lvl \<and> k < height h x \<and> upd ! k = Some p
                  then nxt h x k else nxt h p k))"
    and upd: "\<forall>k < lvl. upd ! k = Some (pr k)"
    and hx: "height h x \<le> lvl"
    and le: "links_eq h1 hf"
  shows "removed h hf x pr"
proof -
  have "Key (hf ! p) = Key (h ! p) \<and> Value (hf ! p) = Value (h ! p)
            \<and> Score (hf ! p) = Score (h ! p) \<and> height hf p = height h p
            \<and> (\<forall>k < height h p. nxt hf p k
                  = (if k < height h x \<and> pr k = p then nxt h x k else nxt h p k))"
    if p: "p < length h" for p
  proof -
    from le p len have f: "Key (hf ! p) = Key (h1 ! p)" "Value (hf ! p) = Value (h1 ! p)"
      "Score (hf ! p) = Score (h1 ! p)" "height hf p = height h1 p" "\<And>k. nxt hf p k = nxt h1 p k"
      by (simp_all add: links_eq_def height_def nxt_def)
    note s = spec[rule_format, OF p]
    have "nxt hf p k = (if k < height h x \<and> pr k = p then nxt h x k else nxt h p k)"
      if k: "k < height h p" for k
    proof -
      from s k have "nxt h1 p k = (if 0 \<le> k \<and> k < lvl \<and> k < height h x \<and> upd ! k = Some p
                  then nxt h x k else nxt h p k)" by blast
      with f(5)[of k] upd hx show ?thesis by (cases "k < height h x") auto
    qed
    with s f show ?thesis by simp
  qed
  with le len show ?thesis by (simp add: removed_def links_eq_def)
qed

lemma Delete_present_run:
  assumes inv: "sl_inv sl ps"
    and A: "A = below (heap sl) score key ps"
    and B: "from_on (heap sl) score key ps = x # B'"
    and m: "feq (Score (heap sl ! x)) score" "Key (heap sl ! x) = key"
  shows "\<exists>sl'. Delete sl key score = Some (sl', True)
      \<and> head sl' = head sl \<and> length_sl sl' = length_sl sl - 1
      \<and> 1 \<le> level sl' \<and> level sl' \<le> level sl
      \<and> (\<forall>i. level sl' \<le> i \<and> i < level sl \<longrightarrow> nxt (heap sl') (head sl) i = None)
      \<and> randSrc sl' = randSrc sl
      \<and> removed (heap sl) (heap sl') x (\<lambda>i. pred_at (heap sl) (head sl) i A)"
proof -
  let ?h = "heap sl" and ?hp = "head sl"
  define pr where "pr = (\<lambda>i. pred_at ?h ?hp i A)"
  have ps: "ps = A @ x # B'" using below_from_on[of ?h score key ps] by (simp add: A B)
  note J = inv[unfolded sl_inv_def ps]
  from J have hp: "?hp < length ?h" "height ?h ?hp = MaxLevel" by blast+
  from J have lv: "1 \<le> level sl" "level sl \<le> MaxLevel" by blast+
  from J have val: "\<forall>p \<in> set (A @ x # B'). p < length ?h" by blast
  from J have hts: "\<forall>p \<in> set (A @ x # B'). 1 \<le> height ?h p \<and> height ?h p \<le> level sl"
    by blast
  from J have dist: "distinct (A @ x # B')" "?hp \<notin> set (A @ x # B')" by blast+
  from J have pths: "\<forall>i < MaxLevel. path ?h i (nxt ?h ?hp i) (on_level ?h i (A @ x # B')) None"
    by blast
  from val have xv: "x < length ?h" by simp
  from hts have hx: "1 \<le> height ?h x" "height ?h x \<le> level sl" by simp_all
  from locate(1)[OF inv A B[symmetric]] obtain upd where
    w: "walk ?h (before score key) (level sl) ?hp (replicate MaxLevel None)
         = Some (last (?hp # A), upd)"
    and len: "length upd = MaxLevel"
    and upd: "\<forall>i < MaxLevel. upd ! i = (if i < level sl then Some (pr i) else None)"
    unfolding pr_def by blast
  note loc = locate(3,4)[OF inv A B[symmetric]]
  have prv: "pr k < length ?h \<and> k < height ?h (pr k) \<and> pr k \<noteq> x
      \<and> (nxt ?h (pr k) k = Some x \<longleftrightarrow> k < height ?h x)" if "k < level sl" for k
  proof -
    from that lv have k: "k < MaxLevel" by simp
    with pths have p: "path ?h k (nxt ?h ?hp k) (on_level ?h k (A @ x # B')) None" by simp
    from pred_at_valid[OF hp(1) _ p] k hp(2)
    have 1: "pr k < length ?h \<and> k < height ?h (pr k)" by (simp add: pr_def)
    from pred_at_cases[of ?h ?hp k A] dist have 2: "pr k \<noteq> x" by (auto simp: pr_def)
    have 3: "nxt ?h (pr k) k = (case on_level ?h k (x # B') of [] \<Rightarrow> None | y # _ \<Rightarrow> Some y)"
      unfolding pr_def using p by (rule nxt_pred_at)
    have 4: "nxt ?h (pr k) k = Some x \<longleftrightarrow> k < height ?h x"
    proof (cases "k < height ?h x")
      case True with 3 show ?thesis by (simp add: on_level_def)
    next
      case False
      have nx: "x \<notin> set (on_level ?h k B')" using dist by (auto simp: on_level_def)
      from False have ol: "on_level ?h k (x # B') = on_level ?h k B'" by (simp add: on_level_def)
      show ?thesis
      proof (cases "on_level ?h k B'")
        case Nil with 3 ol False show ?thesis by simp
      next
        case (Cons y ys)
        with nx have "y \<noteq> x" by auto
        with 3 ol Cons False show ?thesis by simp
      qed
    qed
    from 1 2 4 show ?thesis by blast
  qed
  have pre: "\<forall>j. 0 \<le> j \<and> j < level sl \<longrightarrow>
           (\<exists>u. upd ! j = Some u \<and> u < length ?h \<and> j < height ?h u \<and> u \<noteq> x
                \<and> (nxt ?h u j = Some x \<longleftrightarrow> j < height ?h x))"
    using upd lv prv by auto
  from Delete_unsplice_spec[of "level sl" upd x ?h 0, OF _ xv pre] lv len
  obtain h1 where us: "Delete_unsplice ?h upd x 0 (level sl) = Some h1"
    and l1: "length h1 = length ?h"
    and spec: "\<forall>p < length ?h. Key (h1 ! p) = Key (?h ! p) \<and> Value (h1 ! p) = Value (?h ! p)
           \<and> Score (h1 ! p) = Score (?h ! p) \<and> Prev (h1 ! p) = Prev (?h ! p)
           \<and> height h1 p = height ?h p
           \<and> (\<forall>k < height ?h p. nxt h1 p k =
                 (if 0 \<le> k \<and> k < level sl \<and> k < height ?h x \<and> upd ! k = Some p
                  then nxt ?h x k else nxt ?h p k))"
    by auto
  have upd': "\<forall>k < level sl. upd ! k = Some (pr k)" using upd lv by auto
  have rem: "removed ?h hf x pr" if "links_eq h1 hf" for hf
    using l1 spec upd' hx(2) that by (rule removed_from_unsplice)
  note r1 = rem[OF links_eq_refl, unfolded removed_def]
  from r1 xv have h1x: "height h1 x = height ?h x" by simp
  have "nxt h1 x 0 = nxt ?h x 0"
  proof -
    from pred_at_cases[of ?h ?hp 0 A] dist have "pr 0 \<noteq> x" by (auto simp: pr_def)
    with r1 xv hx show ?thesis by simp
  qed
  also have "\<dots> = (case B' of [] \<Rightarrow> None | y # _ \<Rightarrow> Some y)"
  proof -
    have "ps = (A @ [x]) @ B'" by (simp add: ps)
    from next0_inv(3)[OF sl_inv_shape[OF inv] this] show ?thesis by simp
  qed
  finally have n0: "index (Next (h1 ! x)) 0 = Some (case B' of [] \<Rightarrow> None | y # _ \<Rightarrow> Some y)"
    using index_nxt[of 0 h1 x] h1x hx by simp
  have d1: "deref h1 x = Some (h1 ! x)" using xv l1 by (simp add: deref_def)
  have shr: "\<exists>l. Delete_shrink hf ?hp (level sl) = Some l \<and> 1 \<le> l \<and> l \<le> level sl
           \<and> (\<forall>i. l \<le> i \<and> i < level sl \<longrightarrow> nxt hf ?hp i = None)" if "links_eq h1 hf" for hf
  proof -
    from rem[OF that, unfolded removed_def] hp have "?hp < length hf" "height hf ?hp = MaxLevel"
      by simp_all
    with lv show ?thesis by (intro Delete_shrink_spec) simp_all
  qed
  have start: "Delete sl key score =
      do {
        (h2, tail2) \<leftarrow> (case (case B' of [] \<Rightarrow> None | y # _ \<Rightarrow> Some y) of
                          Some y \<Rightarrow>
                            do {
                              ey \<leftarrow> deref h1 y;
                              Some (h1[y := ey\<lparr>Prev := Prev (h1 ! x)\<rparr>], tail sl)
                            }
                        | None \<Rightarrow> Some (h1, Prev (h1 ! x)));
        lvl \<leftarrow> Delete_shrink h2 ?hp (level sl);
        Some (sl\<lparr>heap := h2, tail := tail2, length_sl := length_sl sl - 1, level := lvl\<rparr>, True)
      }"
    unfolding Delete_def using loc m xv
    by (simp add: w B us d1 n0 deref_valid bytes_Equal_def del: last.simps)
  show ?thesis
  proof (cases B')
    case Nil
    from shr[OF links_eq_refl] obtain l where l: "Delete_shrink h1 ?hp (level sl) = Some l"
      "1 \<le> l" "l \<le> level sl" "\<forall>i. l \<le> i \<and> i < level sl \<longrightarrow> nxt h1 ?hp i = None" by blast
    let ?sl' = "sl\<lparr>heap := h1, tail := Prev (h1 ! x), length_sl := length_sl sl - 1, level := l\<rparr>"
    have "Delete sl key score = Some (?sl', True)" unfolding start by (simp add: Nil l(1))
    with l rem[OF links_eq_refl] show ?thesis
      by (intro exI[of _ ?sl']) (simp add: pr_def)
  next
    case (Cons y ys)
    with val have yv: "y < length h1" by (simp add: l1)
    define h2 where "h2 = h1[y := (h1 ! y)\<lparr>Prev := Prev (h1 ! x)\<rparr>]"
    have le: "links_eq h1 h2" unfolding h2_def by (rule links_eq_Prev)
    from shr[OF le] obtain l where l: "Delete_shrink h2 ?hp (level sl) = Some l"
      "1 \<le> l" "l \<le> level sl" "\<forall>i. l \<le> i \<and> i < level sl \<longrightarrow> nxt h2 ?hp i = None" by blast
    let ?sl' = "sl\<lparr>heap := h2, tail := tail sl, length_sl := length_sl sl - 1, level := l\<rparr>"
    have "Delete sl key score = Some (?sl', True)"
      unfolding start using yv by (simp add: Cons l(1)[unfolded h2_def] deref_def h2_def)
    with l rem[OF le] show ?thesis
      by (intro exI[of _ ?sl']) (simp add: pr_def)
  qed
qed

lemma path_from_None: "path h i None qs t \<Longrightarrow> qs = []"
  by (cases qs) auto

lemma path_removed:
  assumes pth: "path h i (nxt h hp i) (on_level h i (A @ x # B')) None"
    and hp: "hp < length h" "i < height h hp"
    and dist: "distinct (hp # A @ x # B')"
    and val: "\<forall>p \<in> set (A @ x # B'). p < length h"
    and rem: "removed h h' x (\<lambda>i. pred_at h hp i A)"
  shows "path h' i (nxt h' hp i) (on_level h' i (A @ B')) None"
proof -
  let ?oA = "on_level h i A" and ?oB = "on_level h i B'"
  note R = rem[unfolded removed_def]
  from R have len: "length h' = length h" by blast
  from R have old: "\<And>p. p < length h \<Longrightarrow> height h' p = height h p"
    and nx: "\<And>p k. p < length h \<Longrightarrow> k < height h p \<Longrightarrow>
        nxt h' p k = (if k < height h x \<and> pred_at h hp k A = p then nxt h x k else nxt h p k)"
    by blast+
  have oA: "on_level h' i A = ?oA" and oB: "on_level h' i B' = ?oB"
    using val old by (simp_all add: on_level_cong)
  have inA: "\<And>q. q \<in> set ?oA \<Longrightarrow> q \<in> set A \<and> q < length h \<and> i < height h q"
    and inB: "\<And>q. q \<in> set ?oB \<Longrightarrow> q \<in> set B' \<and> q < length h \<and> i < height h q"
    using val by (auto simp: set_on_level)
  show ?thesis
  proof (cases "i < height h x")
    case False
    then have ol: "on_level h i (A @ x # B') = ?oA @ ?oB" by (simp add: on_level_def)
    have "path h' i (nxt h hp i) (?oA @ ?oB) None"
      using pth[unfolded ol]
    proof (rule path_frame)
      fix q assume "q \<in> set (?oA @ ?oB)" "q < length h"
      with inA inB have "i < height h q" by auto
      with \<open>q < length h\<close> False nx[of q i] old[of q] len
      show "q < length h' \<and> height h' q = height h q \<and> nxt h' q i = nxt h q i" by simp
    qed
    with False nx[OF hp] show ?thesis by (simp add: on_level_append oA oB)
  next
    case True
    then have ol: "on_level h i (A @ x # B') = ?oA @ x # ?oB" by (simp add: on_level_def)
    define u where "u = pred_at h hp i A"
    have ul: "u = last (hp # ?oA)" by (simp add: u_def pred_at_def)
    from pth[unfolded ol] obtain m where m: "path h i (nxt h hp i) ?oA m"
      "path h i m (x # ?oB) None" unfolding path_append by blast
    from m(2) have px: "path h i (nxt h x i) ?oB None" by simp
    have dA: "distinct (hp # ?oA)" using dist by (auto simp: on_level_def)
    have a: "path h' i (nxt h' hp i) ?oA (nxt h x i)"
      using m(1) dA
    proof (rule path_redirect)
      show "\<forall>p \<in> set (hp # ?oA). p < length h' \<and> height h' p = height h p
           \<and> nxt h' p i = (if p = last (hp # ?oA) then nxt h x i else nxt h p i)"
      proof
        fix p assume "p \<in> set (hp # ?oA)"
        with hp inA have p: "p < length h" "i < height h p" by auto
        with nx[OF p] old[OF p(1)] len True
        show "p < length h' \<and> height h' p = height h p
           \<and> nxt h' p i = (if p = last (hp # ?oA) then nxt h x i else nxt h p i)"
          unfolding ul[symmetric] u_def by auto
      qed
    qed
    have uA: "u = hp \<or> u \<in> set A" using pred_at_cases[of h hp i A] by (auto simp: u_def)
    have b: "path h' i (nxt h x i) ?oB None"
      using px
    proof (rule path_frame)
      fix q assume "q \<in> set ?oB" "q < length h"
      with inB have q: "q \<in> set B'" "i < height h q" by auto
      with uA dist have "u \<noteq> q" by auto
      with nx[OF \<open>q < length h\<close> q(2)] old[OF \<open>q < length h\<close>] len \<open>q < length h\<close>
      show "q < length h' \<and> height h' q = height h q \<and> nxt h' q i = nxt h q i"
        by (simp add: u_def)
    qed
    from a b have "path h' i (nxt h' hp i) (?oA @ ?oB) None"
      unfolding path_append by blast
    then show ?thesis by (simp add: on_level_append oA oB)
  qed
qed

lemma sl_inv_removed:
  assumes inv: "sl_inv sl ps" and ps: "ps = A @ x # B'"
    and rem: "removed (heap sl) (heap sl') x (\<lambda>i. pred_at (heap sl) (head sl) i A)"
    and sl': "head sl' = head sl" "length_sl sl' = length_sl sl - 1"
      "1 \<le> level sl'" "level sl' \<le> level sl"
      "\<forall>i. level sl' \<le> i \<and> i < level sl \<longrightarrow> nxt (heap sl') (head sl) i = None"
  shows "sl_inv sl' (A @ B')"
proof -
  let ?h = "heap sl" and ?h' = "heap sl'" and ?hp = "head sl"
  note R = rem[unfolded removed_def]
  from R have len: "length ?h' = length ?h" by blast
  from R have old: "\<And>p. p < length ?h \<Longrightarrow> height ?h' p = height ?h p
      \<and> Key (?h' ! p) = Key (?h ! p) \<and> Score (?h' ! p) = Score (?h ! p)"
    by blast
  note J = inv[unfolded sl_inv_def ps]
  from J have hp: "?hp < length ?h" "height ?h ?hp = MaxLevel" by blast+
  from J have val: "\<forall>p \<in> set (A @ x # B'). p < length ?h" by blast
  from J have hts: "\<forall>p \<in> set (A @ x # B'). 1 \<le> height ?h p \<and> height ?h p \<le> level sl"
    by blast
  from J have dist: "distinct (A @ x # B')" "?hp \<notin> set (A @ x # B')" by blast+
  from J have srt: "sorted_wrt (\<lambda>p q. elt_less (?h ! p) (?h ! q)) (A @ x # B')" by blast
  from J have pths: "\<forall>i < MaxLevel. path ?h i (nxt ?h ?hp i) (on_level ?h i (A @ x # B')) None"
    by blast
  from J have lv: "1 \<le> level sl" "level sl \<le> MaxLevel" by blast+
  from J have ln: "length_sl sl = int (length (A @ x # B'))" by blast
  have 1: "head sl' < length ?h' \<and> height ?h' (head sl') = MaxLevel"
    using hp old[OF hp(1)] len sl'(1) by simp
  have 2: "1 \<le> level sl' \<and> level sl' \<le> MaxLevel" using lv sl'(3,4) by simp
  have 3: "distinct (A @ B') \<and> head sl' \<notin> set (A @ B')" using dist sl'(1) by auto
  have 6: "\<forall>i < MaxLevel. path ?h' i (nxt ?h' (head sl') i) (on_level ?h' i (A @ B')) None"
  proof (intro allI impI)
    fix i assume i: "i < MaxLevel"
    from pths i have "path ?h i (nxt ?h ?hp i) (on_level ?h i (A @ x # B')) None" by simp
    then show "path ?h' i (nxt ?h' (head sl') i) (on_level ?h' i (A @ B')) None"
      unfolding sl'(1) using hp(1) _ _ val rem
      by (rule path_removed) (use hp i dist in auto)
  qed
  have 4: "\<forall>p \<in> set (A @ B'). p < length ?h' \<and> 1 \<le> height ?h' p
      \<and> height ?h' p \<le> level sl'"
  proof
    fix p assume p: "p \<in> set (A @ B')"
    then have pv: "p < length ?h" and ph: "1 \<le> height ?h p" "height ?h p \<le> level sl"
      using val hts by auto
    have "height ?h p \<le> level sl'"
    proof (rule ccontr)
      assume "\<not> height ?h p \<le> level sl'"
      with ph have k: "level sl' \<le> height ?h p - 1" "height ?h p - 1 < level sl"
        "height ?h p - 1 < height ?h p" by auto
      with sl'(5) have "nxt ?h' ?hp (height ?h p - 1) = None" by blast
      moreover from k lv 6 sl'(1)
      have "path ?h' (height ?h p - 1) (nxt ?h' ?hp (height ?h p - 1))
              (on_level ?h' (height ?h p - 1) (A @ B')) None" by simp
      ultimately have "on_level ?h' (height ?h p - 1) (A @ B') = []"
        by (simp add: path_from_None)
      moreover from p k(3) old[OF pv] have "p \<in> set (on_level ?h' (height ?h p - 1) (A @ B'))"
        by (simp add: set_on_level)
      ultimately show False by simp
    qed
    with pv ph old[OF pv] len show "p < length ?h' \<and> 1 \<le> height ?h' p
      \<and> height ?h' p \<le> level sl'" by simp
  qed
  have eqless: "\<And>p q. p < length ?h \<Longrightarrow> q < length ?h \<Longrightarrow>
      elt_less (?h' ! p) (?h' ! q) = elt_less (?h ! p) (?h ! q)"
    using old by (simp add: elt_less_def before_def)
  from srt have "sorted_wrt (\<lambda>p q. elt_less (?h ! p) (?h ! q)) (A @ B')"
    by (auto simp: sorted_wrt_append)
  then have 5: "sorted_wrt (\<lambda>p q. elt_less (?h' ! p) (?h' ! q)) (A @ B')"
    using _ by (rule sorted_wrt_mono_rel[rotated]) (use val eqless in auto)
  have 7: "length_sl sl' = int (length (A @ B'))" using ln sl'(2) by simp
  from 1 2 3 4 5 6 7 show ?thesis unfolding sl_inv_def by blast
qed

text \<open>\<open>Delete\<close> of a (score, key) that is in the list.\<close>

lemma Delete_present:
  assumes inv: "sl_inv sl ps" and hit: "lookup (heap sl) ps key score = Some x"
  shows "\<exists>sl' A B'. Delete sl key score = Some (sl', True)
      \<and> ps = A @ x # B' \<and> sl_inv sl' (A @ B')
      \<and> head sl' = head sl \<and> length (heap sl') = length (heap sl)
      \<and> (\<forall>p < length (heap sl). Key (heap sl' ! p) = Key (heap sl ! p)
            \<and> Value (heap sl' ! p) = Value (heap sl ! p)
            \<and> Score (heap sl' ! p) = Score (heap sl ! p))"
proof -
  let ?h = "heap sl"
  let ?A = "below ?h score key ps"
  from hit obtain B' where B: "from_on ?h score key ps = x # B'"
    and m: "feq (Score (?h ! x)) score" "Key (?h ! x) = key"
    by (auto simp: lookup_def split: list.splits if_splits)
  have ps: "ps = ?A @ x # B'" using below_from_on[of ?h score key ps] by (simp add: B)
  from Delete_present_run[OF inv refl B m]
  obtain sl' where r: "Delete sl key score = Some (sl', True)"
    and s: "head sl' = head sl" "length_sl sl' = length_sl sl - 1"
      "1 \<le> level sl'" "level sl' \<le> level sl"
      "\<forall>i. level sl' \<le> i \<and> i < level sl \<longrightarrow> nxt (heap sl') (head sl) i = None"
    and rem: "removed ?h (heap sl') x (\<lambda>i. pred_at ?h (head sl) i ?A)" by blast
  have "sl_inv sl' (?A @ B')" using inv ps rem s by (rule sl_inv_removed)
  with r ps s(1) rem[unfolded removed_def] show ?thesis
    by (intro exI[of _ sl'] exI[of _ ?A] exI[of _ B']) simp
qed

lemma Delete_spec:
  assumes inv: "sl_inv sl ps"
  shows "\<exists>sl' r ps'. Delete sl key score = Some (sl', r) \<and> sl_inv sl' ps'
      \<and> head sl' = head sl \<and> length (heap sl') = length (heap sl)
      \<and> (\<forall>p < length (heap sl). Key (heap sl' ! p) = Key (heap sl ! p)
            \<and> Value (heap sl' ! p) = Value (heap sl ! p)
            \<and> Score (heap sl' ! p) = Score (heap sl ! p))
      \<and> (case lookup (heap sl) ps key score of
            None \<Rightarrow> \<not> r \<and> sl' = sl \<and> ps' = ps
          | Some x \<Rightarrow> r \<and> (\<exists>A B'. ps = A @ x # B' \<and> ps' = A @ B'))"
proof (cases "lookup (heap sl) ps key score")
  case None
  from Delete_absent[OF inv None] inv None show ?thesis
    by (intro exI[of _ sl] exI[of _ False] exI[of _ ps]) simp
next
  case (Some x)
  from Delete_present[OF inv Some] obtain sl' A B' where
    "Delete sl key score = Some (sl', True)" "ps = A @ x # B'" "sl_inv sl' (A @ B')"
    "head sl' = head sl" "length (heap sl') = length (heap sl)"
    "\<forall>p < length (heap sl). Key (heap sl' ! p) = Key (heap sl ! p)
            \<and> Value (heap sl' ! p) = Value (heap sl ! p)
            \<and> Score (heap sl' ! p) = Score (heap sl ! p)" by blast
  with Some show ?thesis
    by (intro exI[of _ sl'] exI[of _ True] exI[of _ "A @ B'"]) auto
qed

lemma Delete_no_NaN:
  assumes inv: "sl_inv sl ps" and nn: "no_NaN (heap sl) ps"
  shows "\<exists>sl' r ps'. Delete sl key score = Some (sl', r) \<and> sl_inv sl' ps'
           \<and> no_NaN (heap sl') ps'"
proof -
  from Delete_spec[OF inv, of key score] obtain sl' r ps' where
    d: "Delete sl key score = Some (sl', r)" "sl_inv sl' ps'"
    and old: "\<forall>p < length (heap sl). Key (heap sl' ! p) = Key (heap sl ! p)
            \<and> Value (heap sl' ! p) = Value (heap sl ! p)
            \<and> Score (heap sl' ! p) = Score (heap sl ! p)"
    and c: "case lookup (heap sl) ps key score of
            None \<Rightarrow> \<not> r \<and> sl' = sl \<and> ps' = ps
          | Some x \<Rightarrow> r \<and> (\<exists>A B'. ps = A @ x # B' \<and> ps' = A @ B')" by blast
  from c have "set ps' \<subseteq> set ps" by (auto split: option.splits)
  with nn old sl_inv_valid[OF inv] have "no_NaN (heap sl') ps'"
    by (auto simp: no_NaN_def)
  with d show ?thesis by blast
qed

lemma run_ops_inv:
  "sl_inv sl ps \<Longrightarrow> no_NaN (heap sl) ps \<Longrightarrow> \<forall>op \<in> set ops. score_ok op \<Longrightarrow>
   \<exists>sl' ps'. run_ops sl ops = Some sl' \<and> sl_inv sl' ps' \<and> no_NaN (heap sl') ps'"
proof (induction ops arbitrary: sl ps)
  case Nil
  then show ?case by auto
next
  case (Cons op ops)
  from Cons.prems(3) have rest: "\<forall>op \<in> set ops. score_ok op" by simp
  show ?case
  proof (cases op)
    case (OpInsert key val score)
    with Cons.prems(3) have "score \<noteq> NaN" by simp
    from Insert_spec[OF Cons.prems(1) this Cons.prems(2), of key val] obtain sl1 p ps1 where
      "Insert sl key val score = Some (sl1, p)" "sl_inv sl1 ps1" "no_NaN (heap sl1) ps1"
      by blast
    with Cons.IH[of sl1 ps1, OF _ _ rest] OpInsert show ?thesis by auto
  next
    case (OpDelete key score)
    from Delete_no_NaN[OF Cons.prems(1,2), of key score] obtain sl1 r ps1 where
      "Delete sl key score = Some (sl1, r)" "sl_inv sl1 ps1" "no_NaN (heap sl1) ps1" by blast
    with Cons.IH[of sl1 ps1, OF _ _ rest] OpDelete show ?thesis by auto
  qed
qed

lemma on_level_mono: "j \<le> i \<Longrightarrow> set (on_level h i ps) \<subseteq> set (on_level h j ps)"
  by (auto simp: on_level_def)

lemma sl_inv_levels:
  assumes inv: "sl_inv sl ps" and i: "i < MaxLevel"
  shows "\<exists>qs. level_list sl i = Some qs
      \<and> sorted_wrt (\<lambda>p q. elt_less (heap sl ! p) (heap sl ! q)) qs
      \<and> (\<forall>j \<le> i. \<exists>rs. level_list sl j = Some rs \<and> set qs \<subseteq> set rs)"
proof -
  have 1: "level_list sl i = Some (on_level (heap sl) i ps)" by (rule level_list_inv[OF inv i])
  have 2: "sorted_wrt (\<lambda>p q. elt_less (heap sl ! p) (heap sl ! q)) (on_level (heap sl) i ps)"
    unfolding on_level_def using sl_inv_sorted[OF inv] by (rule sorted_wrt_filter)
  have 3: "\<exists>rs. level_list sl j = Some rs \<and> set (on_level (heap sl) i ps) \<subseteq> set rs"
    if "j \<le> i" for j
    using level_list_inv[OF inv, of j] that i on_level_mono[OF that] by auto
  from 1 2 3 show ?thesis by blast
qed

lemma Range_collect_path:
  "path h 0 s qs None \<Longrightarrow> (0 < limit \<longrightarrow> int (length acc) < limit) \<Longrightarrow>
   Range_collect h maxScore limit s acc =
     Some (acc @ (if 0 < limit
                  then take (nat limit - length acc) (takeWhile (\<lambda>q. fle (Score (h ! q)) maxScore) qs)
                  else takeWhile (\<lambda>q. fle (Score (h ! q)) maxScore) qs))"
proof (induction qs arbitrary: s acc)
  case Nil
  then show ?case by (subst Range_collect.simps) simp
next
  case (Cons q qs)
  from Cons.prems(1) have q: "s = Some q" "q < length h" "0 < height h q"
    "path h 0 (nxt h q 0) qs None" by auto
  show ?case
  proof (cases "fle (Score (h ! q)) maxScore")
    case False
    with q show ?thesis by (subst Range_collect.simps) (simp add: deref_def)
  next
    case True
    show ?thesis
    proof (cases "0 < limit \<and> limit \<le> int (length (acc @ [q]))")
      case stop: True
      with Cons.prems(2) have "nat limit - length acc = Suc 0" by auto
      with stop True q show ?thesis
        by (subst Range_collect.simps) (simp add: deref_def)
    next
      case go: False
      then have pre: "0 < limit \<longrightarrow> int (length (acc @ [q])) < limit" by auto
      from go have "0 < limit \<Longrightarrow> nat limit - length acc = Suc (nat limit - length (acc @ [q]))"
        by auto
      with Cons.IH[OF q(4) pre] go True q show ?thesis
        by (subst Range_collect.simps) (auto simp add: deref_def index_nxt)
    qed
  qed
qed

lemma sorted_filter_takeWhile:
  assumes "sorted_wrt R xs" and "\<And>a b. R a b \<Longrightarrow> P b \<Longrightarrow> P a"
  shows "filter P xs = takeWhile P xs"
  using assms(1)
proof (induction xs)
  case Nil then show ?case by simp
next
  case (Cons x xs)
  show ?case
  proof (cases "P x")
    case True with Cons show ?thesis by simp
  next
    case False
    with Cons.prems assms(2) have "\<forall>y \<in> set xs. \<not> P y" by auto
    with False show ?thesis by (simp add: filter_empty_conv)
  qed
qed

lemma sorted_filter_dropWhile:
  assumes "sorted_wrt R xs" and "\<And>a b. R a b \<Longrightarrow> P b \<Longrightarrow> P a"
  shows "filter (\<lambda>x. \<not> P x) xs = dropWhile P xs"
  using assms(1)
proof (induction xs)
  case Nil then show ?case by simp
next
  case (Cons x xs)
  show ?case
  proof (cases "P x")
    case True with Cons show ?thesis by simp
  next
    case False
    with Cons.prems assms(2) have "\<forall>y \<in> set xs. \<not> P y" by auto
    with False show ?thesis by (simp add: filter_id_conv)
  qed
qed

lemma elt_less_Score: "elt_less a b \<Longrightarrow> fle (Score a) (Score b)"
  by (auto simp: elt_less_def before_def fle_def)

text \<open>
  \<open>Range\<close> on a list of any order, when the descent cuts it into \<open>A\<close> and \<open>B\<close>: the
  elements of \<open>B\<close> up to the first one whose score is not \<open>\<le> maxScore\<close>.
\<close>

lemma Range_at:
  assumes sh: "sl_shape sl ps" and ps: "ps = A @ B"
    and A: "\<forall>a \<in> set A. flt (Score (heap sl ! a)) minScore"
    and B: "\<forall>b \<in> set B. \<not> flt (Score (heap sl ! b)) minScore"
  shows "Range sl minScore maxScore limit =
     Some (if 0 < limit
           then take (nat limit) (takeWhile (\<lambda>p. fle (Score (heap sl ! p)) maxScore) B)
           else takeWhile (\<lambda>p. fle (Score (heap sl ! p)) maxScore) B)"
proof -
  let ?h = "heap sl"
  have d: "descend ?h (\<lambda>e. flt (Score e) minScore) (level sl) (head sl)
             = Some (last (head sl # A))"
    using sh ps A B by (rule descend_inv)
  note n = next0_inv[OF sh ps]
  from sh have "path ?h 0 (nxt ?h (head sl) 0) (on_level ?h 0 ps) None"
    by (simp add: sl_shape_def MaxLevel_def)
  moreover from sh have "on_level ?h 0 ps = ps"
    by (intro on_level_0) (simp add: sl_shape_def)
  ultimately have "path ?h 0 (nxt ?h (head sl) 0) (A @ B) None" by (simp add: ps)
  then obtain m where m: "path ?h 0 (nxt ?h (head sl) 0) A m" "path ?h 0 m B None"
    unfolding path_append by blast
  from path_end[OF m(1)] m(2) have pB: "path ?h 0 (nxt ?h (last (head sl # A)) 0) B None"
    by simp
  from Range_collect_path[OF pB, of limit "[]" maxScore]
  show ?thesis
    unfolding Range_def using d n(1,2)
    by (simp add: deref_valid index_nxt del: last.simps)
qed

lemma Range_spec:
  assumes inv: "sl_inv sl ps" and ok: "minScore \<noteq> NaN"
  shows "Range sl minScore maxScore limit =
     Some (if 0 < limit
           then take (nat limit)
                  (filter (\<lambda>p. fle minScore (Score (heap sl ! p))
                              \<and> fle (Score (heap sl ! p)) maxScore) ps)
           else filter (\<lambda>p. fle minScore (Score (heap sl ! p))
                              \<and> fle (Score (heap sl ! p)) maxScore) ps)"
proof -
  let ?h = "heap sl"
  let ?lo = "\<lambda>p. flt (Score (?h ! p)) minScore" and ?hi = "\<lambda>p. fle (Score (?h ! p)) maxScore"
  let ?A = "takeWhile ?lo ps" and ?B = "dropWhile ?lo ps"
  note srt = sl_inv_sorted[OF inv]
  have lo: "\<And>a b. elt_less (?h ! a) (?h ! b) \<Longrightarrow> ?lo b \<Longrightarrow> ?lo a"
    and hi: "\<And>a b. elt_less (?h ! a) (?h ! b) \<Longrightarrow> ?hi b \<Longrightarrow> ?hi a"
    by (auto dest!: elt_less_Score intro: fle_flt_trans fle_trans)
  have ps: "ps = ?A @ ?B" by simp
  have A: "\<forall>a \<in> set ?A. flt (Score (?h ! a)) minScore" by (auto dest: set_takeWhileD)
  have B: "\<forall>b \<in> set ?B. \<not> flt (Score (?h ! b)) minScore"
  proof
    fix b assume b: "b \<in> set ?B"
    show "\<not> flt (Score (?h ! b)) minScore"
      by (rule sorted_dropWhile_not[of "\<lambda>p q. elt_less (?h ! p) (?h ! q)" ps ?lo b,
            OF srt lo b])
  qed
  have "sorted_wrt (\<lambda>p q. elt_less (?h ! p) (?h ! q)) (?A @ ?B)" using srt by simp
  then have sB: "sorted_wrt (\<lambda>p q. elt_less (?h ! p) (?h ! q)) ?B"
    unfolding sorted_wrt_append by blast
  have pt: "(fle minScore s \<and> fle s maxScore) = (\<not> flt s minScore \<and> fle s maxScore)" for s
  proof (cases "s = NaN")
    case True then show ?thesis by simp
  next
    case False
    from not_flt_fle[OF False ok] show ?thesis by auto
  qed
  have "filter (\<lambda>p. fle minScore (Score (?h ! p)) \<and> fle (Score (?h ! p)) maxScore) ps
      = filter ?hi (filter (\<lambda>p. \<not> ?lo p) ps)"
    by (simp add: pt)
  also have "\<dots> = filter ?hi ?B"
    using sorted_filter_dropWhile[of "\<lambda>p q. elt_less (?h ! p) (?h ! q)" ps ?lo, OF srt lo]
    by simp
  also have "\<dots> = takeWhile ?hi ?B"
    by (rule sorted_filter_takeWhile[of "\<lambda>p q. elt_less (?h ! p) (?h ! q)" ?B ?hi, OF sB hi])
  finally have f: "filter (\<lambda>p. fle minScore (Score (?h ! p)) \<and> fle (Score (?h ! p)) maxScore) ps
      = takeWhile ?hi ?B" .
  show ?thesis
    unfolding f using sl_inv_shape[OF inv] ps A B by (rule Range_at)
qed

lemma Scan_loop_path:
  "path h 0 cur qs None \<Longrightarrow>
   Scan_loop h ttl now prefix limit cur count result =
     Some (fold (\<lambda>p m. m(Key (h ! p) \<mapsto> Value (h ! p)))
             (if limit \<le> 0
              then filter (\<lambda>p. bytes_HasPrefix (Key (h ! p)) prefix
                     \<and> (case ttl (Key (h ! p)) of None \<Rightarrow> True | Some expiry \<Rightarrow> now < expiry)) qs
              else take (nat (limit - count))
                     (filter (\<lambda>p. bytes_HasPrefix (Key (h ! p)) prefix
                        \<and> (case ttl (Key (h ! p)) of None \<Rightarrow> True | Some expiry \<Rightarrow> now < expiry))
                        qs))
             result)"
proof (induction qs arbitrary: cur count result)
  case Nil
  then show ?case by (subst Scan_loop.simps) simp
next
  case (Cons q qs)
  from Cons.prems have q: "cur = Some q" "q < length h" "0 < height h q"
    "path h 0 (nxt h q 0) qs None" by auto
  show ?case
  proof (cases "limit \<le> 0 \<or> count < limit")
    case False
    with q show ?thesis by (subst Scan_loop.simps) simp
  next
    case True
    then have n: "0 < limit \<Longrightarrow> nat (limit - count) = Suc (nat (limit - (count + 1)))" by auto
    show ?thesis
    proof (cases "bytes_HasPrefix (Key (h ! q)) prefix
                     \<and> (case ttl (Key (h ! q)) of None \<Rightarrow> True | Some expiry \<Rightarrow> now < expiry)")
      case m: True
      from Cons.IH[OF q(4), of "count + 1" "result(Key (h ! q) \<mapsto> Value (h ! q))"]
        True m q n show ?thesis
        by (subst Scan_loop.simps) (auto simp add: deref_def index_nxt simp del: fun_upd_apply)
    next
      case m: False
      from Cons.IH[OF q(4), of count result] True m q show ?thesis
        by (subst Scan_loop.simps) (auto simp add: deref_def index_nxt simp del: fun_upd_apply)
    qed
  qed
qed

lemma First_inv:
  assumes "sl_inv sl ps"
  shows "First sl = Some (nxt (heap sl) (head sl) 0)"
    and "path (heap sl) 0 (nxt (heap sl) (head sl) 0) ps None"
proof -
  from assms have hp: "head sl < length (heap sl)" "0 < height (heap sl) (head sl)"
    by (auto simp: sl_inv_def MaxLevel_def)
  then show "First sl = Some (nxt (heap sl) (head sl) 0)"
    by (simp add: First_def deref_valid index_nxt)
  from assms have "path (heap sl) 0 (nxt (heap sl) (head sl) 0) (on_level (heap sl) 0 ps) None"
    by (simp add: sl_inv_def MaxLevel_def)
  moreover from assms have "on_level (heap sl) 0 ps = ps"
    by (intro on_level_0) (simp add: sl_inv_def)
  ultimately show "path (heap sl) 0 (nxt (heap sl) (head sl) 0) ps None" by simp
qed

lemma fold_upd_map_of:
  "distinct (map f xs) \<Longrightarrow>
   fold (\<lambda>p m. m(f p \<mapsto> g p)) xs m0 = m0 ++ map_of (map (\<lambda>p. (f p, g p)) xs)"
proof (induction xs arbitrary: m0)
  case Nil
  then show ?case by simp
next
  case (Cons x xs)
  then have "f x \<notin> dom (map_of (map (\<lambda>p. (f p, g p)) xs))"
    by (auto simp: dom_map_of_conv_image_fst image_image)
  then have "m0(f x \<mapsto> g x) ++ map_of (map (\<lambda>p. (f p, g p)) xs)
      = (m0 ++ map_of (map (\<lambda>p. (f p, g p)) xs))(f x \<mapsto> g x)"
    by (rule map_add_upd_left)
  with Cons show ?case by (simp del: fun_upd_apply)
qed

lemma sorted_wrt_distinct_map:
  "sorted_wrt R xs \<Longrightarrow> (\<And>x y. R x y \<Longrightarrow> f x \<noteq> f y) \<Longrightarrow> distinct (map f xs)"
  by (induction xs) auto

lemma kv_keys_distinct:
  assumes "kv_inv s ps"
  shows "distinct (map (\<lambda>p. Key (heap (data s) ! p)) ps)"
proof -
  let ?h = "heap (data s)"
  from assms have srt: "sorted_wrt (\<lambda>p q. elt_less (?h ! p) (?h ! q)) ps"
    and sc: "\<forall>p \<in> set ps. Score (?h ! p) = score_of (Key (?h ! p))"
    by (simp_all add: kv_inv_def sl_inv_def)
  have "sorted_wrt (\<lambda>p q. elt_less (?h ! p) (?h ! q) \<and> p \<in> set ps \<and> q \<in> set ps) ps"
    using srt by (auto simp: sorted_wrt_iff_nth_less)
  then show ?thesis
  proof (rule sorted_wrt_distinct_map)
    fix x y assume "elt_less (?h ! x) (?h ! y) \<and> x \<in> set ps \<and> y \<in> set ps"
    with sc before_irrefl[of "?h ! x" "Score (?h ! y)" "Key (?h ! y)"]
    show "Key (?h ! x) \<noteq> Key (?h ! y)" by (auto simp: elt_less_def)
  qed
qed

lemma entries_filter:
  "map (\<lambda>p. (Key (h ! p), Value (h ! p))) (filter (\<lambda>p. P (Key (h ! p))) ps)
   = filter (\<lambda>(k, v). P k) (entries h ps)"
  by (induction ps) (auto simp: entries_def)

lemma option_eqI: "(\<And>v. a = Some v \<longleftrightarrow> b = Some v) \<Longrightarrow> a = b"
  by (cases a; cases b) auto

lemma kv_contents:
  assumes "kv_inv s ps"
  shows "map_of (entries (heap (data s)) ps) k = Some v \<longleftrightarrow>
         (\<exists>p \<in> set ps. Key (heap (data s) ! p) = k \<and> Value (heap (data s) ! p) = v)"
proof -
  have "distinct (map fst (entries (heap (data s)) ps))"
    using kv_keys_distinct[OF assms] by (simp add: entries_def comp_def)
  then show ?thesis by (auto simp: map_of_eq_Some_iff entries_def)
qed

text \<open>What an insertion does to the contents of a store.\<close>

lemma kv_insert:
  assumes inv: "kv_inv s ps"
  shows "\<exists>sl' p ps'. Insert (data s) key val (score_of key) = Some (sl', p)
      \<and> kv_inv (s\<lparr>data := sl', ttlData := t\<rparr>) ps'
      \<and> map_of (entries (heap sl') ps')
          = (map_of (entries (heap (data s)) ps))(key \<mapsto> val)"
proof -
  let ?h = "heap (data s)"
  from inv have sinv: "sl_inv (data s) ps"
    and sc: "\<forall>p \<in> set ps. Score (?h ! p) = score_of (Key (?h ! p))"
    by (simp_all add: kv_inv_def)
  from sc have nn: "no_NaN ?h ps" by (simp add: no_NaN_def)
  from Insert_spec[where score = "score_of key" and key = key and val = val,
      OF sinv score_of_Finite nn]
  obtain sl' p ps' where all: "Insert (data s) key val (score_of key) = Some (sl', p)
      \<and> sl_inv sl' ps'
      \<and> no_NaN (heap sl') ps'
      \<and> head sl' = head (data s)
      \<and> set ps' = insert p (set ps)
      \<and> lookup (heap sl') ps' key (score_of key) = Some p
      \<and> Key (heap sl' ! p) = key \<and> Value (heap sl' ! p) = val
      \<and> Score (heap sl' ! p) = score_of key
      \<and> (\<forall>q \<in> set ps. q \<noteq> p \<longrightarrow> Key (heap sl' ! q) = Key (?h ! q)
            \<and> Value (heap sl' ! q) = Value (?h ! q)
            \<and> Score (heap sl' ! q) = Score (?h ! q))
      \<and> (lookup ?h ps key (score_of key) = None \<longrightarrow> p \<notin> set ps)
      \<and> (lookup ?h ps key (score_of key) \<noteq> None \<longrightarrow>
            lookup ?h ps key (score_of key) = Some p \<and> ps' = ps)"
    by (elim exE) (rule that)
  from all have r: "Insert (data s) key val (score_of key) = Some (sl', p)"
    and inv': "sl_inv sl' ps'" and st: "set ps' = insert p (set ps)"
    and new: "Key (heap sl' ! p) = key" "Value (heap sl' ! p) = val"
      "Score (heap sl' ! p) = score_of key"
    by simp_all
  from all have old: "\<forall>q \<in> set ps. q \<noteq> p \<longrightarrow> Key (heap sl' ! q) = Key (?h ! q)
            \<and> Value (heap sl' ! q) = Value (?h ! q) \<and> Score (heap sl' ! q) = Score (?h ! q)"
    by (elim conjE)
  from all have fresh: "lookup ?h ps key (score_of key) = None \<longrightarrow> p \<notin> set ps"
    by (elim conjE)
  from all have ex: "lookup ?h ps key (score_of key) \<noteq> None \<longrightarrow>
               lookup ?h ps key (score_of key) = Some p \<and> ps' = ps"
    by (elim conjE)
  let ?s' = "s\<lparr>data := sl', ttlData := t\<rparr>"
  have kinv': "kv_inv ?s' ps'"
    unfolding kv_inv_def using inv' st new old sc by auto
  have pk: "p \<in> set ps \<Longrightarrow> Key (?h ! p) = key"
    using fresh ex lookup_Some[OF sl_inv_sorted[OF sinv], of key "score_of key" p, unfolded feq_score_of] by auto
  have "map_of (entries (heap sl') ps') k = ((map_of (entries ?h ps))(key \<mapsto> val)) k" for k
  proof (cases "k = key")
    case True
    have "map_of (entries (heap (data ?s')) ps') key = Some val"
      unfolding kv_contents[OF kinv'] using st new by auto
    with True show ?thesis by simp
  next
    case False
    have "map_of (entries (heap (data ?s')) ps') k = map_of (entries ?h ps) k"
    proof (rule option_eqI)
      fix v
      have "(\<exists>q \<in> set ps'. Key (heap sl' ! q) = k \<and> Value (heap sl' ! q) = v)
          \<longleftrightarrow> (\<exists>q \<in> set ps. Key (?h ! q) = k \<and> Value (?h ! q) = v)"
      proof
        assume "\<exists>q \<in> set ps'. Key (heap sl' ! q) = k \<and> Value (heap sl' ! q) = v"
        then obtain q where q: "q \<in> set ps'" "Key (heap sl' ! q) = k" "Value (heap sl' ! q) = v"
          by blast
        with new(1) False have "q \<noteq> p" by auto
        with q(1) st have "q \<in> set ps" by simp
        with old \<open>q \<noteq> p\<close> q(2,3) show "\<exists>q \<in> set ps. Key (?h ! q) = k \<and> Value (?h ! q) = v"
          by (intro bexI[of _ q]) simp_all
      next
        assume "\<exists>q \<in> set ps. Key (?h ! q) = k \<and> Value (?h ! q) = v"
        then obtain q where q: "q \<in> set ps" "Key (?h ! q) = k" "Value (?h ! q) = v" by blast
        with pk False have "q \<noteq> p" by auto
        with old q st show "\<exists>q \<in> set ps'. Key (heap sl' ! q) = k \<and> Value (heap sl' ! q) = v"
          by (intro bexI[of _ q]) simp_all
      qed
      then show "map_of (entries (heap (data ?s')) ps') k = Some v
          \<longleftrightarrow> map_of (entries ?h ps) k = Some v"
        unfolding kv_contents[OF kinv'] kv_contents[OF inv] by simp
    qed
    with False show ?thesis by simp
  qed
  then have "map_of (entries (heap sl') ps') = (map_of (entries ?h ps))(key \<mapsto> val)"
    by (rule ext)
  with r kinv' show ?thesis by blast
qed

lemma Set_spec:
  assumes "kv_inv s ps"
  shows "\<exists>s' ps'. Set s key val = Some s' \<and> kv_inv s' ps'
      \<and> ttlData s' = (ttlData s)(key := None) \<and> spawned s' = spawned s
      \<and> map_of (entries (heap (data s')) ps')
          = (map_of (entries (heap (data s)) ps))(key \<mapsto> val)"
proof -
  from kv_insert[OF assms, of key val "(ttlData s)(key := None)"]
  obtain sl' p ps' where "Insert (data s) key val (score_of key) = Some (sl', p)"
    "kv_inv (s\<lparr>data := sl', ttlData := (ttlData s)(key := None)\<rparr>) ps'"
    "map_of (entries (heap sl') ps') = (map_of (entries (heap (data s)) ps))(key \<mapsto> val)"
    by blast
  then show ?thesis
    by (intro exI[of _ "s\<lparr>data := sl', ttlData := (ttlData s)(key := None)\<rparr>"] exI[of _ ps'])
       (simp add: Set_def)
qed

lemma SetWithTTL_spec:
  assumes "kv_inv s ps"
  shows "\<exists>s' ps'. SetWithTTL s now key val ttl = Some s' \<and> kv_inv s' ps'
      \<and> ttlData s' = (ttlData s)(key \<mapsto> now + ttl) \<and> spawned s' = spawned s
      \<and> map_of (entries (heap (data s')) ps')
          = (map_of (entries (heap (data s)) ps))(key \<mapsto> val)"
proof -
  from kv_insert[OF assms, of key val "(ttlData s)(key \<mapsto> now + ttl)"]
  obtain sl' p ps' where "Insert (data s) key val (score_of key) = Some (sl', p)"
    "kv_inv (s\<lparr>data := sl', ttlData := (ttlData s)(key \<mapsto> now + ttl)\<rparr>) ps'"
    "map_of (entries (heap sl') ps') = (map_of (entries (heap (data s)) ps))(key \<mapsto> val)"
    by blast
  then show ?thesis
    by (intro exI[of _ "s\<lparr>data := sl', ttlData := (ttlData s)(key \<mapsto> now + ttl)\<rparr>"]
          exI[of _ ps'])
       (simp add: SetWithTTL_def)
qed

lemma KV_Delete_spec:
  assumes inv: "kv_inv s ps"
  shows "\<exists>s' r ps'. KV_Delete s key = Some (s', r) \<and> kv_inv s' ps'
      \<and> ttlData s' = (ttlData s)(key := None) \<and> spawned s' = spawned s
      \<and> map_of (entries (heap (data s')) ps')
          = (map_of (entries (heap (data s)) ps))(key := None)
      \<and> (r \<longleftrightarrow> key \<in> dom (map_of (entries (heap (data s)) ps)))"
proof -
  let ?h = "heap (data s)"
  from inv have sinv: "sl_inv (data s) ps"
    and sc: "\<forall>p \<in> set ps. Score (?h ! p) = score_of (Key (?h ! p))"
    by (simp_all add: kv_inv_def)
  note val = sl_inv_valid[OF sinv]
  from Delete_spec[OF sinv, of key "score_of key"]
  obtain sl' r ps' where all: "Delete (data s) key (score_of key) = Some (sl', r)
      \<and> sl_inv sl' ps'
      \<and> head sl' = head (data s) \<and> length (heap sl') = length ?h
      \<and> (\<forall>p < length ?h. Key (heap sl' ! p) = Key (?h ! p)
            \<and> Value (heap sl' ! p) = Value (?h ! p)
            \<and> Score (heap sl' ! p) = Score (?h ! p))
      \<and> (case lookup ?h ps key (score_of key) of
            None \<Rightarrow> \<not> r \<and> sl' = data s \<and> ps' = ps
          | Some x \<Rightarrow> r \<and> (\<exists>A B'. ps = A @ x # B' \<and> ps' = A @ B'))"
    by (elim exE) (rule that)
  from all have d: "Delete (data s) key (score_of key) = Some (sl', r)"
    and inv': "sl_inv sl' ps'" by simp_all
  from all have old: "\<forall>p < length ?h. Key (heap sl' ! p) = Key (?h ! p)
            \<and> Value (heap sl' ! p) = Value (?h ! p) \<and> Score (heap sl' ! p) = Score (?h ! p)"
    by (elim conjE)
  from all have cs: "case lookup ?h ps key (score_of key) of
            None \<Rightarrow> \<not> r \<and> sl' = data s \<and> ps' = ps
          | Some x \<Rightarrow> r \<and> (\<exists>A B'. ps = A @ x # B' \<and> ps' = A @ B')"
    by (elim conjE)
  let ?s' = "s\<lparr>data := sl', ttlData := (ttlData s)(key := None)\<rparr>"
  note lS = lookup_Some[OF sl_inv_sorted[OF sinv], of key "score_of key", unfolded feq_score_of]
  note lN = lookup_None[OF sl_inv_sorted[OF sinv], of key "score_of key", unfolded feq_score_of]
  note dk = kv_keys_distinct[OF inv]
  have sub: "set ps' \<subseteq> set ps"
  proof (cases "lookup ?h ps key (score_of key)")
    case None with cs show ?thesis by simp
  next
    case (Some x)
    with cs obtain A B' where "ps = A @ x # B'" "ps' = A @ B'" by auto
    then show ?thesis by auto
  qed
  have sc': "Score (heap sl' ! q) = score_of (Key (heap sl' ! q))" if "q \<in> set ps'" for q
  proof -
    from that sub have q: "q \<in> set ps" by blast
    with val have "q < length ?h" by simp
    with old have "Score (heap sl' ! q) = Score (?h ! q)" "Key (heap sl' ! q) = Key (?h ! q)"
      by simp_all
    with sc q show ?thesis by simp
  qed
  have kinv': "kv_inv ?s' ps'"
    unfolding kv_inv_def using inv' sc' by simp
  have keyin: "key \<in> dom (map_of (entries ?h ps)) \<longleftrightarrow> (\<exists>p \<in> set ps. Key (?h ! p) = key)"
    using kv_contents[OF inv, of key] by (auto simp: dom_def)
  have mem: "q \<in> set ps' \<longleftrightarrow> q \<in> set ps \<and> Key (?h ! q) \<noteq> key" for q
  proof (cases "lookup ?h ps key (score_of key)")
    case None
    with cs have "ps' = ps" by simp
    moreover from None lN sc have "\<forall>p \<in> set ps. Key (?h ! p) \<noteq> key" by metis
    ultimately show ?thesis by blast
  next
    case (Some x)
    with cs obtain A B' where sp: "ps = A @ x # B'" "ps' = A @ B'" by auto
    from Some lS have x: "x \<in> set ps" "Key (?h ! x) = key" by simp_all
    from sinv sp have "distinct (A @ x # B')" by (simp add: sl_inv_def)
    then have m1: "q \<in> set ps' \<longleftrightarrow> q \<in> set ps \<and> q \<noteq> x" unfolding sp by auto
    have m2: "Key (?h ! q) = key \<longleftrightarrow> q = x" if "q \<in> set ps"
      using dk x that by (auto simp: distinct_map dest: inj_onD)
    from m1 m2 show ?thesis by blast
  qed
  have r: "r \<longleftrightarrow> (\<exists>p \<in> set ps. Key (?h ! p) = key)"
  proof (cases "lookup ?h ps key (score_of key)")
    case None
    with cs have "\<not> r" by simp
    moreover from None lN sc have "\<forall>p \<in> set ps. Key (?h ! p) \<noteq> key" by metis
    ultimately show ?thesis by blast
  next
    case (Some x)
    with cs have "r" by simp
    moreover from Some lS have "x \<in> set ps" "Key (?h ! x) = key" by simp_all
    ultimately show ?thesis by blast
  qed
  have "map_of (entries (heap sl') ps') k = ((map_of (entries ?h ps))(key := None)) k" for k
  proof (rule option_eqI)
    fix v
    have same: "Key (heap sl' ! q) = Key (?h ! q) \<and> Value (heap sl' ! q) = Value (?h ! q)"
      if "q \<in> set ps" for q using that old val by simp
    have "(\<exists>q \<in> set ps'. Key (heap sl' ! q) = k \<and> Value (heap sl' ! q) = v)
        \<longleftrightarrow> k \<noteq> key \<and> (\<exists>q \<in> set ps. Key (?h ! q) = k \<and> Value (?h ! q) = v)"
    proof
      assume "\<exists>q \<in> set ps'. Key (heap sl' ! q) = k \<and> Value (heap sl' ! q) = v"
      then obtain q where q: "q \<in> set ps'" "Key (heap sl' ! q) = k" "Value (heap sl' ! q) = v"
        by blast
      from q(1) mem have "q \<in> set ps" "Key (?h ! q) \<noteq> key" by simp_all
      with same[of q] q(2,3)
      show "k \<noteq> key \<and> (\<exists>q \<in> set ps. Key (?h ! q) = k \<and> Value (?h ! q) = v)"
        by (intro conjI bexI[of _ q]) simp_all
    next
      assume "k \<noteq> key \<and> (\<exists>q \<in> set ps. Key (?h ! q) = k \<and> Value (?h ! q) = v)"
      then obtain q where q: "k \<noteq> key" "q \<in> set ps" "Key (?h ! q) = k" "Value (?h ! q) = v"
        by blast
      then have "q \<in> set ps'" using mem by simp
      with same[OF q(2)] q
      show "\<exists>q \<in> set ps'. Key (heap sl' ! q) = k \<and> Value (heap sl' ! q) = v"
        by (intro bexI[of _ q]) simp_all
    qed
    then show "map_of (entries (heap sl') ps') k = Some v
        \<longleftrightarrow> ((map_of (entries ?h ps))(key := None)) k = Some v"
      using kv_contents[OF kinv', of k v] kv_contents[OF inv, of k v] by auto
  qed
  then have "map_of (entries (heap sl') ps') = (map_of (entries ?h ps))(key := None)"
    by (rule ext)
  with d kinv' r keyin show ?thesis
    by (intro exI[of _ ?s'] exI[of _ r] exI[of _ ps']) (simp add: KV_Delete_def)
qed

lemma map_of_filter_key:
  "map_of (filter (\<lambda>(k, v). P k) es) k = (if P k then map_of es k else None)"
  by (induction es) auto

lemma Scan_spec:
  assumes inv: "kv_inv s ps"
  shows "Scan s now prefix limit =
     Some (map_of
       (if 0 < limit
        then take (nat limit)
               (filter (\<lambda>(k, v). bytes_HasPrefix k prefix
                   \<and> (case ttlData s k of None \<Rightarrow> True | Some expiry \<Rightarrow> now < expiry))
                  (entries (heap (data s)) ps))
        else filter (\<lambda>(k, v). bytes_HasPrefix k prefix
                   \<and> (case ttlData s k of None \<Rightarrow> True | Some expiry \<Rightarrow> now < expiry))
               (entries (heap (data s)) ps)))"
proof -
  let ?h = "heap (data s)"
  let ?P = "\<lambda>k. bytes_HasPrefix k prefix
              \<and> (case ttlData s k of None \<Rightarrow> True | Some expiry \<Rightarrow> now < expiry)"
  let ?F = "filter (\<lambda>p. ?P (Key (?h ! p))) ps"
  from inv have sinv: "sl_inv (data s) ps" by (simp add: kv_inv_def)
  note F = First_inv[OF sinv]
  note L = Scan_loop_path[OF F(2), of "ttlData s" now prefix limit 0 Map.empty]
  have d: "distinct (map (\<lambda>p. Key (?h ! p)) ?F)"
    using kv_keys_distinct[OF inv] by (rule distinct_map_filter)
  have e: "map (\<lambda>p. (Key (?h ! p), Value (?h ! p))) ?F = filter (\<lambda>(k, v). ?P k) (entries ?h ps)"
    by (rule entries_filter)
  show ?thesis
  proof (cases "0 < limit")
    case True
    from d have "distinct (take (nat limit) (map (\<lambda>p. Key (?h ! p)) ?F))"
      by (rule distinct_take)
    then have dt: "distinct (map (\<lambda>p. Key (?h ! p)) (take (nat limit) ?F))"
      by (simp add: take_map)
    have "Scan s now prefix limit
        = Some (fold (\<lambda>p m. m(Key (?h ! p) \<mapsto> Value (?h ! p))) (take (nat limit) ?F) Map.empty)"
      unfolding Scan_def F(1) using L True by simp
    also have "fold (\<lambda>p m. m(Key (?h ! p) \<mapsto> Value (?h ! p))) (take (nat limit) ?F) Map.empty
        = map_of (map (\<lambda>p. (Key (?h ! p), Value (?h ! p))) (take (nat limit) ?F))"
      using fold_upd_map_of[OF dt, of "\<lambda>p. Value (?h ! p)" Map.empty] by simp
    also have "map (\<lambda>p. (Key (?h ! p), Value (?h ! p))) (take (nat limit) ?F)
        = take (nat limit) (filter (\<lambda>(k, v). ?P k) (entries ?h ps))"
      unfolding e[symmetric] by (rule take_map[symmetric])
    finally show ?thesis using True by simp
  next
    case False
    have "Scan s now prefix limit
        = Some (fold (\<lambda>p m. m(Key (?h ! p) \<mapsto> Value (?h ! p))) ?F Map.empty)"
      unfolding Scan_def F(1) using L False by simp
    also have "fold (\<lambda>p m. m(Key (?h ! p) \<mapsto> Value (?h ! p))) ?F Map.empty
        = map_of (map (\<lambda>p. (Key (?h ! p), Value (?h ! p))) ?F)"
      using fold_upd_map_of[OF d, of "\<lambda>p. Value (?h ! p)" Map.empty] by simp
    finally show ?thesis using False e by simp
  qed
qed

lemma Scan_scenario:
  "\<exists>s1 s2 s3. Set (NewSkiplistKVStore rs) ''user:1'' X = Some s1
     \<and> Set s1 ''user:2'' Y = Some s2 \<and> Set s2 ''order:1'' Z = Some s3
     \<and> Scan s3 now ''user:'' 0 = Some [''user:1'' \<mapsto> X, ''user:2'' \<mapsto> Y]"
proof -
  let ?s0 = "NewSkiplistKVStore rs"
  have m0: "map_of (entries (heap (data ?s0)) []) = Map.empty" by (simp add: entries_def)
  have t0: "ttlData ?s0 = Map.empty" by (simp add: NewSkiplistKVStore_def)
  from Set_spec[OF NewSkiplistKVStore_inv, of rs "''user:1''" X] m0 t0
  obtain s1 ps1 where 1: "Set ?s0 ''user:1'' X = Some s1" "kv_inv s1 ps1"
    "ttlData s1 = Map.empty"
    "map_of (entries (heap (data s1)) ps1) = [''user:1'' \<mapsto> X]" by auto
  from Set_spec[OF 1(2), of "''user:2''" Y] 1(3,4)
  obtain s2 ps2 where 2: "Set s1 ''user:2'' Y = Some s2" "kv_inv s2 ps2"
    "ttlData s2 = Map.empty"
    "map_of (entries (heap (data s2)) ps2) = [''user:1'' \<mapsto> X, ''user:2'' \<mapsto> Y]" by auto
  from Set_spec[OF 2(2), of "''order:1''" Z] 2(3,4)
  obtain s3 ps3 where 3: "Set s2 ''order:1'' Z = Some s3" "kv_inv s3 ps3"
    "ttlData s3 = Map.empty"
    "map_of (entries (heap (data s3)) ps3)
       = [''user:1'' \<mapsto> X, ''user:2'' \<mapsto> Y, ''order:1'' \<mapsto> Z]" by auto
  have "map_of (filter (\<lambda>(k, v). bytes_HasPrefix k ''user:''
                   \<and> (case ttlData s3 k of None \<Rightarrow> True | Some expiry \<Rightarrow> now < expiry))
                  (entries (heap (data s3)) ps3))
      = [''user:1'' \<mapsto> X, ''user:2'' \<mapsto> Y]"
    by (rule ext) (simp add: map_of_filter_key 3(3,4))
  with Scan_spec[OF 3(2), of now "''user:''" 0] have "Scan s3 now ''user:'' 0
      = Some [''user:1'' \<mapsto> X, ''user:2'' \<mapsto> Y]" by simp
  with 1(1) 2(1) 3(1) show ?thesis by blast
qed

text \<open>What \<open>Get\<close> answers on a store that satisfies its invariant.\<close>

lemma Get_spec:
  assumes inv: "kv_inv s ps"
  shows "Get s now key =
     Some (if (case ttlData s key of Some expiry \<Rightarrow> expiry < now | None \<Rightarrow> False)
           then (s\<lparr>spawned := spawned s @ [key]\<rparr>, Inl ErrKeyNotFound)
           else (s, case map_of (entries (heap (data s)) ps) key of
                      None \<Rightarrow> Inl ErrKeyNotFound
                    | Some v \<Rightarrow> Inr v))"
proof (cases "case ttlData s key of Some expiry \<Rightarrow> expiry < now | None \<Rightarrow> False")
  case True
  then show ?thesis by (simp add: Get_def)
next
  case False
  let ?h = "heap (data s)"
  from inv have sinv: "sl_inv (data s) ps"
    and sc: "\<forall>p \<in> set ps. Score (?h ! p) = score_of (Key (?h ! p))"
    by (simp_all add: kv_inv_def)
  note S = Search_spec[OF sinv, of key "score_of key"]
  show ?thesis
  proof (cases "lookup ?h ps key (score_of key)")
    case None
    with lookup_None[OF sl_inv_sorted[OF sinv], of key "score_of key", unfolded feq_score_of] sc
    have "\<forall>p \<in> set ps. Key (?h ! p) \<noteq> key" by metis
    with kv_contents[OF inv, of key] have "map_of (entries ?h ps) key = None"
      by (metis not_Some_eq)
    with None S False show ?thesis by (simp add: Get_def)
  next
    case (Some p)
    with lookup_Some[OF sl_inv_sorted[OF sinv], of key "score_of key" p, unfolded feq_score_of]
    have p: "p \<in> set ps" "Key (?h ! p) = key" by simp_all
    with kv_contents[OF inv, of key "Value (?h ! p)"]
    have "map_of (entries ?h ps) key = Some (Value (?h ! p))" by blast
    with Some S False sl_inv_valid[OF sinv p(1)] show ?thesis
      by (simp add: Get_def deref_valid)
  qed
qed

text \<open>The invariant holds in every store a caller can reach.\<close>

lemma kv_inv_spawned: "kv_inv (s\<lparr>spawned := x\<rparr>) ps = kv_inv s ps"
  by (simp add: kv_inv_def)

lemma run_spawned_inv:
  assumes "kv_inv s ps"
  shows "\<exists>s' ps'. run_spawned s = Some s' \<and> kv_inv s' ps'"
proof (cases "spawned s")
  case Nil
  with assms show ?thesis by (auto simp: run_spawned_def)
next
  case (Cons key rest)
  from assms have "kv_inv (s\<lparr>spawned := rest\<rparr>) ps" by (simp add: kv_inv_spawned)
  from KV_Delete_spec[OF this, of key] obtain s' r ps' where
    "KV_Delete (s\<lparr>spawned := rest\<rparr>) key = Some (s', r)" "kv_inv s' ps'" by blast
  with Cons show ?thesis by (auto simp: run_spawned_def)
qed

lemma run_kv_inv:
  "kv_inv s ps \<Longrightarrow> \<exists>s' ps'. run_kv s ops = Some s' \<and> kv_inv s' ps'"
proof (induction ops arbitrary: s ps)
  case Nil
  then show ?case by auto
next
  case (Cons op ops)
  show ?case
  proof (cases op)
    case (DoSet key val)
    from Set_spec[OF Cons.prems, of key val] obtain s1 ps1 where
      "Set s key val = Some s1" "kv_inv s1 ps1" by blast
    with Cons.IH[of s1 ps1] DoSet show ?thesis by auto
  next
    case (DoSetWithTTL now key val ttl)
    from SetWithTTL_spec[OF Cons.prems, of now key val ttl] obtain s1 ps1 where
      "SetWithTTL s now key val ttl = Some s1" "kv_inv s1 ps1" by blast
    with Cons.IH[of s1 ps1] DoSetWithTTL show ?thesis by auto
  next
    case (DoGet now key)
    from Get_spec[OF Cons.prems, of now key] Cons.prems obtain s1 r where
      "Get s now key = Some (s1, r)" "kv_inv s1 ps"
      by (cases "case ttlData s key of Some expiry \<Rightarrow> expiry < now | None \<Rightarrow> False")
         (auto simp: kv_inv_spawned)
    with Cons.IH[of s1 ps] DoGet show ?thesis by auto
  next
    case (DoDelete key)
    from KV_Delete_spec[OF Cons.prems, of key] obtain s1 r ps1 where
      "KV_Delete s key = Some (s1, r)" "kv_inv s1 ps1" by blast
    with Cons.IH[of s1 ps1] DoDelete show ?thesis by auto
  next
    case RunSpawned
    from run_spawned_inv[OF Cons.prems] obtain s1 ps1 where
      "run_spawned s = Some s1" "kv_inv s1 ps1" by blast
    with Cons.IH[of s1 ps1] RunSpawned show ?thesis by auto
  qed
qed

lemma reachable_kv_inv:
  "\<exists>s ps. run_kv (NewSkiplistKVStore rs) ops = Some s \<and> kv_inv s ps"
  using run_kv_inv[OF NewSkiplistKVStore_inv] by blast

section \<open>Lists that hold a NaN\<close>

text \<open>
  No element is before a NaN, and a NaN is before no element: the descent of an \<open>Insert\<close>
  with the score NaN stays at the head, and the new cell becomes the first of the list.
\<close>

lemma Insert_first:
  assumes sh: "sl_shape sl ps"
    and nb: "\<forall>b \<in> set ps. \<not> before score key (heap sl ! b)"
    and miss: "\<forall>y zs. ps = y # zs \<longrightarrow>
                 \<not> (feq (Score (heap sl ! y)) score \<and> Key (heap sl ! y) = key)"
  shows "\<exists>sl'. Insert sl key val score = Some (sl', length (heap sl))
      \<and> sl_shape sl' (length (heap sl) # ps)
      \<and> head sl' = head sl
      \<and> length_sl sl' = length_sl sl + 1
      \<and> length (heap sl') = Suc (length (heap sl))
      \<and> (\<forall>p < length (heap sl). Key (heap sl' ! p) = Key (heap sl ! p)
            \<and> Value (heap sl' ! p) = Value (heap sl ! p)
            \<and> Score (heap sl' ! p) = Score (heap sl ! p))
      \<and> Key (heap sl' ! length (heap sl)) = key
      \<and> Value (heap sl' ! length (heap sl)) = val
      \<and> Score (heap sl' ! length (heap sl)) = score"
  using Insert_at[where A = "[]" and B = ps, OF sh _ _ nb miss, of val] by simp

lemma Insert_new_list:
  "\<exists>sl'. Insert (NewSkipList rs) key val score = Some (sl', 1)
      \<and> sl_shape sl' [1] \<and> head sl' = 0 \<and> length_sl sl' = 1 \<and> length (heap sl') = 2
      \<and> Key (heap sl' ! 1) = key \<and> Value (heap sl' ! 1) = val \<and> Score (heap sl' ! 1) = score"
proof -
  let ?sl = "NewSkipList rs"
  have hd: "head ?sl = 0" "length (heap ?sl) = 1" "length_sl ?sl = 0"
    by (simp_all add: NewSkipList_def NewElement_def)
  from Insert_first[OF sl_inv_shape[OF NewSkipList_inv], of score key rs val]
  show ?thesis by (simp add: hd) (auto simp: numeral_2_eq_2)
qed

lemma Insert_NaN_second:
  "\<exists>sl1 sl2. Insert (NewSkipList rs) k1 v1 s1 = Some (sl1, 1)
      \<and> Insert sl1 k2 v2 NaN = Some (sl2, 2)
      \<and> sl_shape sl1 [1] \<and> length_sl sl1 = 1
      \<and> Key (heap sl1 ! 1) = k1 \<and> Value (heap sl1 ! 1) = v1 \<and> Score (heap sl1 ! 1) = s1
      \<and> sl_shape sl2 [2, 1] \<and> head sl2 = 0 \<and> length_sl sl2 = 2 \<and> length (heap sl2) = 3
      \<and> Key (heap sl2 ! 1) = k1 \<and> Value (heap sl2 ! 1) = v1 \<and> Score (heap sl2 ! 1) = s1
      \<and> Key (heap sl2 ! 2) = k2 \<and> Value (heap sl2 ! 2) = v2 \<and> Score (heap sl2 ! 2) = NaN"
proof -
  from Insert_new_list[of rs k1 v1 s1] obtain sl1 where
    1: "Insert (NewSkipList rs) k1 v1 s1 = Some (sl1, 1)" "sl_shape sl1 [1]" "head sl1 = 0"
      "length_sl sl1 = 1" "length (heap sl1) = 2"
      "Key (heap sl1 ! 1) = k1" "Value (heap sl1 ! 1) = v1" "Score (heap sl1 ! 1) = s1"
    by blast
  have nb: "\<forall>b \<in> set [1 :: nat]. \<not> before NaN k2 (heap sl1 ! b)" by simp
  have miss: "\<forall>y zs. [1 :: nat] = y # zs \<longrightarrow>
                 \<not> (feq (Score (heap sl1 ! y)) NaN \<and> Key (heap sl1 ! y) = k2)" by simp
  from Insert_first[OF 1(2) nb miss, of v2] 1(3,4,5)
  obtain sl2 where 2: "Insert sl1 k2 v2 NaN = Some (sl2, 2)" "sl_shape sl2 [2, 1]"
      "head sl2 = 0" "length_sl sl2 = 2" "length (heap sl2) = 3"
      "\<forall>p < 2. Key (heap sl2 ! p) = Key (heap sl1 ! p)
            \<and> Value (heap sl2 ! p) = Value (heap sl1 ! p)
            \<and> Score (heap sl2 ! p) = Score (heap sl1 ! p)"
      "Key (heap sl2 ! 2) = k2" "Value (heap sl2 ! 2) = v2" "Score (heap sl2 ! 2) = NaN"
    by auto
  from 2(6) 1(6,7,8) have 3: "Key (heap sl2 ! 1) = k1" "Value (heap sl2 ! 1) = v1"
    "Score (heap sl2 ! 1) = s1" by simp_all
  from 1 2 3 show ?thesis by blast
qed

lemma sl_two_inv: "sl_inv sl_two [1, 2]"
proof -
  have p: "path (heap sl_two) i (nxt (heap sl_two) (head sl_two) i)
             (on_level (heap sl_two) i [1, 2]) None" if "i < 32" for i
  proof -
    consider "i = 0" | "i = 1" | "2 \<le> i" by linarith
    then show ?thesis
    proof cases
      case 1 then show ?thesis by (simp add: sl_two_def on_level_def height_def nxt_def)
    next
      case 2 then show ?thesis by (simp add: sl_two_def on_level_def height_def nxt_def)
    next
      case 3
      with that have "i = Suc (Suc (i - 2))" "i - 2 < 30" by arith+
      then show ?thesis
        by (simp add: sl_two_def on_level_def height_def nxt_def)
    qed
  qed
  show ?thesis
    unfolding sl_inv_def using p
    by (simp add: sl_two_def height_def MaxLevel_def elt_less_def before_def)
qed

lemma sl_two_scores:
  "Score (heap sl_two ! Suc 0) = Finite 1" "Score (heap sl_two ! 2) = Finite 2"
  "Key (heap sl_two ! 2) = ''b''"
  by (simp_all add: sl_two_def)


lemma kv_data_inv: "sl_inv (data (NewSkiplistKVStore rs)) []"
  by (simp add: NewSkiplistKVStore_def NewSkipList_inv)

section \<open>Claims\<close>

text \<open>
  C1 (round trip). On a store whose skip list is well formed, \<open>Set(key, value)\<close> returns,
  and a \<open>Get(key)\<close> that follows it directly, at any instant, returns \<open>value\<close> with no
  error and leaves the store as it is.
\<close>

theorem Set_then_Get:
  assumes "sl_inv (data s) ps"
  shows "\<exists>s'. Set s key val = Some s' \<and> Get s' now key = Some (s', Inr val)"
proof -
  from Insert_Search[OF assms score_of_Finite, of key val]
  obtain sl' p where r: "Insert (data s) key val (score_of key) = Some (sl', p)"
    and f: "Search sl' key (score_of key) = Some (Some p)"
    and p: "p < length (heap sl')" and v: "Value (heap sl' ! p) = val" by blast
  let ?s' = "s\<lparr>data := sl', ttlData := (ttlData s)(key := None)\<rparr>"
  have 1: "Set s key val = Some ?s'" by (simp add: Set_def r)
  have "Get ?s' now key = Some (?s', Inr val)"
    unfolding Get_def using f v p by (simp add: deref_valid)
  with 1 show ?thesis by blast
qed

theorem Set_then_Get_witness:
  "sl_inv (data (NewSkiplistKVStore never_promote)) []
   \<and> (\<exists>s'. Set (NewSkiplistKVStore never_promote) ''user:1'' ''X'' = Some s'
         \<and> Get s' 0 ''user:1'' = Some (s', Inr ''X''))"
  using Set_then_Get[OF kv_data_inv, of never_promote "''user:1''" "''X''" 0] kv_data_inv
  by simp

text \<open>
  C3 (lazy expiry on Get). When the TTL table has an entry for the key and its expiry
  instant lies before \<open>now\<close>, \<open>Get\<close> returns \<open>ErrKeyNotFound\<close>; the only change to the
  store is that one goroutine \<open>Delete(key)\<close> has been started: the skip list and the TTL
  table are as before the call.
\<close>

theorem Get_expired:
  assumes "ttlData s key = Some expiry" and "expiry < now"
  shows "Get s now key = Some (s\<lparr>spawned := spawned s @ [key]\<rparr>, Inl ErrKeyNotFound)"
  using assms by (simp add: Get_def)

theorem Get_expired_witness:
  "ttlData kv_ttl ''k'' = Some 100 \<and> (100 :: int) < 150
   \<and> Get kv_ttl 150 ''k'' = Some (kv_ttl\<lparr>spawned := spawned kv_ttl @ [''k'']\<rparr>, Inl ErrKeyNotFound)"
proof -
  have a: "ttlData kv_ttl ''k'' = Some 100" by (simp add: kv_ttl_def)
  have b: "(100 :: int) < 150" by simp
  from Get_expired[OF a b] a b show ?thesis by simp
qed

text \<open>
  C4 (Insert overwrite). The claim speaks of every list that holds an element with
  exactly the (score, key). \<open>Insert\<close> takes any \<open>float64\<close>, and a NaN compares false with
  everything. After \<open>Insert(b, y, 5)\<close> and \<open>Insert(k, v, NaN)\<close> on a new list the level-0
  chain is k:NaN, b:5; it holds (5, b) in cell 1. \<open>Insert(b, z, 5)\<close> stops its descent at
  the head, tests k:NaN, finds no match and links a new cell 3 in front: the length goes
  from 2 to 3 and cell 1 keeps the value y. And after \<open>Insert(k, v1, NaN)\<close> alone, a
  second \<open>Insert(k, v2, NaN)\<close> returns a new cell 2 and the length is 2.
\<close>

theorem Insert_overwrite_counterexample:
  "(case run_ops (NewSkipList never_promote)
           [OpInsert ''b'' ''y'' (Finite 5), OpInsert ''k'' ''v'' NaN] of
      None \<Rightarrow> False
    | Some sl \<Rightarrow>
        level_list sl 0 = Some [2, 1] \<and> length_sl sl = 2
        \<and> Key (heap sl ! 1) = ''b'' \<and> Score (heap sl ! 1) = Finite 5
        \<and> Value (heap sl ! 1) = ''y''
        \<and> (case Insert sl ''b'' ''z'' (Finite 5) of
              None \<Rightarrow> False
            | Some (sl', p) \<Rightarrow>
                p = 3 \<and> length_sl sl' = 3 \<and> level_list sl' 0 = Some [3, 2, 1]
                \<and> Value (heap sl' ! 1) = ''y''))
   \<and> (case Insert (NewSkipList never_promote) ''k'' ''v1'' NaN of
        None \<Rightarrow> False
      | Some (sl, p) \<Rightarrow>
          level_list sl 0 = Some [p] \<and> length_sl sl = 1
          \<and> Key (heap sl ! p) = ''k'' \<and> Score (heap sl ! p) = NaN
          \<and> (case Insert sl ''k'' ''v2'' NaN of
                None \<Rightarrow> False
              | Some (sl', q) \<Rightarrow> q \<noteq> p \<and> length_sl sl' = 2
                  \<and> level_list sl' 0 = Some [q, p]))"
proof -
  from Insert_NaN_second[of never_promote "''b''" "''y''" "Finite 5" "''k''" "''v''"]
  obtain sl1 sl2 where a: "Insert (NewSkipList never_promote) ''b'' ''y'' (Finite 5) = Some (sl1, 1)"
      "Insert sl1 ''k'' ''v'' NaN = Some (sl2, 2)"
    and sh: "sl_shape sl2 [2, 1]"
    and b: "head sl2 = 0" "length_sl sl2 = 2" "length (heap sl2) = 3"
      "Key (heap sl2 ! 1) = ''b''" "Value (heap sl2 ! 1) = ''y''" "Score (heap sl2 ! 1) = Finite 5"
      "Key (heap sl2 ! 2) = ''k''" "Score (heap sl2 ! 2) = NaN"
    by blast
  have run: "run_ops (NewSkipList never_promote)
           [OpInsert ''b'' ''y'' (Finite 5), OpInsert ''k'' ''v'' NaN] = Some sl2"
    by (simp add: a)
  have nb: "\<forall>q \<in> set [2, 1 :: nat]. \<not> before (Finite 5) ''b'' (heap sl2 ! q)"
    using b by (simp add: before_def)
  have miss: "\<forall>y zs. [2, 1 :: nat] = y # zs \<longrightarrow>
                 \<not> (feq (Score (heap sl2 ! y)) (Finite 5) \<and> Key (heap sl2 ! y) = ''b'')"
    using b by simp
  from Insert_first[OF sh nb miss, of "''z''"] b
  obtain sl3 where c: "Insert sl2 ''b'' ''z'' (Finite 5) = Some (sl3, 3)"
      "sl_shape sl3 [3, 2, 1]" "length_sl sl3 = 3"
      "\<forall>p < 3. Key (heap sl3 ! p) = Key (heap sl2 ! p)
            \<and> Value (heap sl3 ! p) = Value (heap sl2 ! p)
            \<and> Score (heap sl3 ! p) = Score (heap sl2 ! p)"
    by auto
  from c(4) b have v: "Value (heap sl3 ! 1) = ''y''" by simp
  have first: "case run_ops (NewSkipList never_promote)
           [OpInsert ''b'' ''y'' (Finite 5), OpInsert ''k'' ''v'' NaN] of
      None \<Rightarrow> False
    | Some sl \<Rightarrow>
        level_list sl 0 = Some [2, 1] \<and> length_sl sl = 2
        \<and> Key (heap sl ! 1) = ''b'' \<and> Score (heap sl ! 1) = Finite 5
        \<and> Value (heap sl ! 1) = ''y''
        \<and> (case Insert sl ''b'' ''z'' (Finite 5) of
              None \<Rightarrow> False
            | Some (sl', p) \<Rightarrow>
                p = 3 \<and> length_sl sl' = 3 \<and> level_list sl' 0 = Some [3, 2, 1]
                \<and> Value (heap sl' ! 1) = ''y'')"
    unfolding run using level_list_at_0[OF sh] level_list_at_0[OF c(2)] b c(1,3) v
    by simp
  from Insert_NaN_second[of never_promote "''k''" "''v1''" NaN "''k''" "''v2''"]
  obtain t1 t2 where d: "Insert (NewSkipList never_promote) ''k'' ''v1'' NaN = Some (t1, 1)"
      "Insert t1 ''k'' ''v2'' NaN = Some (t2, 2)"
      "sl_shape t1 [1]" "length_sl t1 = 1" "Key (heap t1 ! 1) = ''k''" "Score (heap t1 ! 1) = NaN"
      "sl_shape t2 [2, 1]" "length_sl t2 = 2"
    by blast
  have second: "case Insert (NewSkipList never_promote) ''k'' ''v1'' NaN of
        None \<Rightarrow> False
      | Some (sl, p) \<Rightarrow>
          level_list sl 0 = Some [p] \<and> length_sl sl = 1
          \<and> Key (heap sl ! p) = ''k'' \<and> Score (heap sl ! p) = NaN
          \<and> (case Insert sl ''k'' ''v2'' NaN of
                None \<Rightarrow> False
              | Some (sl', q) \<Rightarrow> q \<noteq> p \<and> length_sl sl' = 2
                  \<and> level_list sl' 0 = Some [q, p])"
    using level_list_at_0[OF d(3)] level_list_at_0[OF d(7)] d(4,5,6,8)
    by (simp add: d(1,2))
  from first second show ?thesis by (rule conjI)
qed

text \<open>
  C4 as amended. If the well-formed list (its elements strictly increasing in
  (score, key), as in every list built with scores that are not NaN) holds the cell \<open>p\<close>
  with exactly this (score, key), and the score is not NaN, then \<open>Insert\<close> returns \<open>p\<close>,
  and the list after the call is the list before it except for the value of cell \<open>p\<close>:
  head, tail, length, level, random source and every key, score, forward and backward
  link are the same.
\<close>

theorem Insert_overwrite:
  assumes "sl_inv sl ps" and "p \<in> set ps"
    and "Score (heap sl ! p) = score" and "Key (heap sl ! p) = key"
    and "score \<noteq> NaN"
  shows "\<exists>sl'. Insert sl key val score = Some (sl', p)
      \<and> sl' = sl\<lparr>heap := (heap sl)[p := (heap sl ! p)\<lparr>Value := val\<rparr>]\<rparr>
      \<and> Value (heap sl' ! p) = val
      \<and> length_sl sl' = length_sl sl \<and> level sl' = level sl
      \<and> head sl' = head sl \<and> tail sl' = tail sl
      \<and> length (heap sl') = length (heap sl)
      \<and> (\<forall>q < length (heap sl). Next (heap sl' ! q) = Next (heap sl ! q)
            \<and> Prev (heap sl' ! q) = Prev (heap sl ! q)
            \<and> Key (heap sl' ! q) = Key (heap sl ! q)
            \<and> Score (heap sl' ! q) = Score (heap sl ! q)
            \<and> (q \<noteq> p \<longrightarrow> Value (heap sl' ! q) = Value (heap sl ! q)))"
proof -
  from assms have "lookup (heap sl) ps key score = Some p"
    by (simp add: lookup_Some[OF sl_inv_sorted[OF assms(1)]] feq_def)
  from Insert_existing[OF assms(1) this, of val] sl_inv_valid[OF assms(1,2)]
  show ?thesis by (simp add: nth_upd)
qed

theorem Insert_overwrite_witness:
  "sl_inv sl_two [1, 2] \<and> (2 :: nat) \<in> set [1, 2]
   \<and> Score (heap sl_two ! 2) = Finite 2 \<and> Key (heap sl_two ! 2) = ''b''
   \<and> Finite 2 \<noteq> NaN
   \<and> Insert sl_two ''b'' ''z'' (Finite 2)
       = Some (sl_two\<lparr>heap := (heap sl_two)[2 := (heap sl_two ! 2)\<lparr>Value := ''z''\<rparr>]\<rparr>, 2)"
proof -
  have a: "(2 :: nat) \<in> set [1, 2]" by simp
  have b: "Score (heap sl_two ! 2) = Finite 2" and c: "Key (heap sl_two ! 2) = ''b''"
    by (simp_all add: sl_two_def)
  have d: "Finite 2 \<noteq> NaN" by simp
  from Insert_overwrite[OF sl_two_inv a b c d, of "''z''"] sl_two_inv a b c d
  show ?thesis by blast
qed

text \<open>
  C5 (delete of an absent key). If no element of the well-formed list has the key, the
  store's \<open>Delete\<close> returns false; the skip list is the same object as before, the engine's
  \<open>Delete\<close> having returned false without a write, and \<open>Size\<close> is unchanged.
\<close>

theorem Delete_absent_key:
  assumes "sl_inv (data s) ps" and "\<forall>p \<in> set ps. Key (heap (data s) ! p) \<noteq> key"
  shows "Delete (data s) key (score_of key) = Some (data s, False)
      \<and> (\<exists>s'. KV_Delete s key = Some (s', False) \<and> data s' = data s \<and> Size s' = Size s)"
proof -
  from assms have "lookup (heap (data s)) ps key (score_of key) = None"
    by (simp add: lookup_None[OF sl_inv_sorted[OF assms(1)]])
  from Delete_absent[OF assms(1) this] show ?thesis
    by (simp add: KV_Delete_def Size_def)
qed

theorem Delete_absent_key_witness:
  "sl_inv (data \<lparr>data = sl_two, ttlData = Map.empty, spawned = []\<rparr>) [1, 2]
   \<and> Key (heap sl_two ! 1) \<noteq> ''c'' \<and> Key (heap sl_two ! 2) \<noteq> ''c''
   \<and> KV_Delete \<lparr>data = sl_two, ttlData = Map.empty, spawned = []\<rparr> ''c''
       = Some (\<lparr>data = sl_two, ttlData = Map.empty, spawned = []\<rparr>, False)
   \<and> Size \<lparr>data = sl_two, ttlData = Map.empty, spawned = []\<rparr> = 2"
proof -
  let ?s = "\<lparr>data = sl_two, ttlData = Map.empty, spawned = []\<rparr>"
  have a: "sl_inv (data ?s) [1, 2]" using sl_two_inv by simp
  have b: "\<forall>p \<in> set [1, 2 :: nat]. Key (heap (data ?s) ! p) \<noteq> ''c''"
    by (simp add: sl_two_def)
  have c: "Size ?s = 2" by (simp add: Size_def Length_def sl_two_def)
  have d: "Key (heap sl_two ! 1) \<noteq> ''c''" "Key (heap sl_two ! 2) \<noteq> ''c''"
    by (simp_all add: sl_two_def)
  from Delete_absent_key[OF a b] a c d show ?thesis
    by (auto simp: KV_Delete_def)
qed

text \<open>
  C7 (plain Set clears the TTL). On a store whose skip list is well formed, \<open>Set\<close> returns
  a store whose TTL table has no entry for the key, whatever it held before, and \<open>GetTTL\<close>
  on that store reports no TTL.
\<close>

theorem Set_clears_TTL:
  assumes "sl_inv (data s) ps"
  shows "\<exists>s'. Set s key val = Some s' \<and> ttlData s' key = None
           \<and> GetTTL s' now key = (s', 0, False)"
proof -
  from Insert_total[OF assms, of key val "score_of key"]
  obtain sl' p where "Insert (data s) key val (score_of key) = Some (sl', p)" by blast
  then show ?thesis by (simp add: Set_def GetTTL_def)
qed

theorem Set_clears_TTL_witness:
  "sl_inv (data kv_ttl) [] \<and> ttlData kv_ttl ''k'' = Some 100
   \<and> (\<exists>s'. Set kv_ttl ''k'' ''v'' = Some s' \<and> ttlData s' ''k'' = None
           \<and> GetTTL s' 50 ''k'' = (s', 0, False))"
proof -
  have a: "sl_inv (data kv_ttl) []" by (simp add: kv_ttl_def NewSkipList_inv)
  have b: "ttlData kv_ttl ''k'' = Some 100" by (simp add: kv_ttl_def)
  from Set_clears_TTL[OF a, of "''k''" "''v''" 50] a b show ?thesis by blast
qed

text \<open>
  C9 (sentinel head). The claim gives the head the score minus infinity, below every
  score an element can have. In the code the head's score is -1, and \<open>Insert\<close> takes any
  score: after inserting an element with score -2 into a new list, that element sits in
  the list with a score below the head's.
\<close>

theorem head_score_counterexample:
  "case Insert (NewSkipList never_promote) ''k'' ''v'' (Finite (-2)) of
     None \<Rightarrow> False
   | Some (sl', p) \<Rightarrow>
       level_list sl' 0 = Some [p]
       \<and> Score (heap sl' ! p) = Finite (-2) \<and> Score (heap sl' ! head sl') = Finite (-1)
       \<and> Score (heap sl' ! head sl') \<noteq> NegInf
       \<and> \<not> flt (Score (heap sl' ! head sl')) (Score (heap sl' ! p))"
proof -
  let ?sl = "NewSkipList never_promote"
  have hd: "head ?sl = 0" "length (heap ?sl) = 1" "Score (heap ?sl ! 0) = Finite (-1)"
    by (simp_all add: NewSkipList_def NewElement_def)
  have miss: "lookup (heap ?sl) [] ''k'' (Finite (-2)) = None"
    by (simp add: lookup_def from_on_def)
  have ok: "Finite (-2) \<noteq> NaN" "no_NaN (heap ?sl) []" by (simp_all add: no_NaN_def)
  from Insert_fresh[OF NewSkipList_inv miss ok, of "''v''"] hd
  obtain sl' where r: "Insert ?sl ''k'' ''v'' (Finite (-2)) = Some (sl', 1)"
    and inv: "sl_inv sl' [1]" and h: "head sl' = 0"
    and s: "Score (heap sl' ! 0) = Finite (-1)" "Score (heap sl' ! 1) = Finite (-2)"
    by (auto simp: below_def from_on_def)
  from level_list_0[OF inv] r h s show ?thesis by simp
qed

text \<open>
  C9 as amended. The head of a new list has score -1 and \<open>MaxLevel\<close> = 32 forward slots,
  all nil, and the list uses one level. Every score that the store derives from a key
  is at least 0, so the head's score is below the score of every element of a store.
\<close>

theorem NewSkipList_head:
  "Score (heap (NewSkipList rs) ! head (NewSkipList rs)) = Finite (-1)
   \<and> Next (heap (NewSkipList rs) ! head (NewSkipList rs)) = replicate 32 None
   \<and> MaxLevel = 32 \<and> level (NewSkipList rs) = 1
   \<and> flt (Score (heap (NewSkipList rs) ! head (NewSkipList rs))) (score_of key)"
proof -
  from score_of_nonneg[of key] obtain r where "score_of key = Finite r" "0 \<le> r" by blast
  then show ?thesis by (simp add: NewSkipList_def NewElement_def MaxLevel_def)
qed

text \<open>
  C10 (GetTTL never mutates). \<open>GetTTL\<close> returns the store it was given, for every key
  and instant; when the key has no TTL entry, or an entry that is not after \<open>now\<close>, the
  answer is (0, false), and the stale entry and the element stay where they are.
\<close>

theorem GetTTL_no_mutation:
  "fst (GetTTL s now key) = s
   \<and> ((ttlData s key = None \<or> (\<exists>expiry. ttlData s key = Some expiry \<and> expiry \<le> now))
        \<longrightarrow> GetTTL s now key = (s, 0, False))"
  by (auto simp: GetTTL_def Let_def split: option.splits)

theorem GetTTL_no_mutation_witness:
  "ttlData kv_ttl ''k'' = Some 100 \<and> (100 :: int) \<le> 150
   \<and> GetTTL kv_ttl 150 ''k'' = (kv_ttl, 0, False)
   \<and> ttlData (fst (GetTTL kv_ttl 150 ''k'')) ''k'' = Some 100"
proof -
  have a: "ttlData kv_ttl ''k'' = Some 100" by (simp add: kv_ttl_def)
  from GetTTL_no_mutation[of kv_ttl 150 "''k''"] a show ?thesis by auto
qed


text \<open>
  C2 (ordering invariant). The claim speaks of every sequence of \<open>Insert\<close> and \<open>Delete\<close>.
  \<open>Insert\<close> takes any \<open>float64\<close>, and a NaN is neither below, nor equal to, nor above any
  score. After \<open>Insert(k, v1, NaN)\<close> and \<open>Insert(k, v2, NaN)\<close> on a new list the level-0
  traversal visits two elements with the key k and the score NaN, the second one
  first: the pair (score, key) does not increase from one to the other.
\<close>

theorem ordering_counterexample:
  "case run_ops (NewSkipList never_promote)
          [OpInsert ''k'' ''v1'' NaN, OpInsert ''k'' ''v2'' NaN] of
     None \<Rightarrow> False
   | Some sl \<Rightarrow>
       level_list sl 0 = Some [2, 1]
       \<and> Key (heap sl ! 2) = ''k'' \<and> Score (heap sl ! 2) = NaN \<and> Value (heap sl ! 2) = ''v2''
       \<and> Key (heap sl ! 1) = ''k'' \<and> Score (heap sl ! 1) = NaN \<and> Value (heap sl ! 1) = ''v1''
       \<and> \<not> elt_less (heap sl ! 2) (heap sl ! 1)
       \<and> \<not> sorted_wrt (\<lambda>p q. elt_less (heap sl ! p) (heap sl ! q)) [2, 1]"
proof -
  from Insert_NaN_second[of never_promote "''k''" "''v1''" NaN "''k''" "''v2''"]
  obtain sl1 sl2 where a: "Insert (NewSkipList never_promote) ''k'' ''v1'' NaN = Some (sl1, 1)"
      "Insert sl1 ''k'' ''v2'' NaN = Some (sl2, 2)"
    and sh: "sl_shape sl2 [2, 1]"
    and b: "Key (heap sl2 ! 1) = ''k''" "Value (heap sl2 ! 1) = ''v1''" "Score (heap sl2 ! 1) = NaN"
      "Key (heap sl2 ! 2) = ''k''" "Value (heap sl2 ! 2) = ''v2''" "Score (heap sl2 ! 2) = NaN"
    by blast
  have run: "run_ops (NewSkipList never_promote)
          [OpInsert ''k'' ''v1'' NaN, OpInsert ''k'' ''v2'' NaN] = Some sl2"
    by (simp add: a)
  have "\<not> elt_less (heap sl2 ! 2) (heap sl2 ! 1)"
    using b by (simp add: elt_less_def before_def)
  with level_list_at_0[OF sh] b show ?thesis unfolding run by simp
qed

text \<open>
  C2 as amended. Whatever sequence of \<open>Insert\<close> and \<open>Delete\<close> calls is run on a new list,
  with whatever draws of the random source, if no \<open>Insert\<close> of the sequence has the score
  NaN (the scores may be infinite), every call returns, and in the list reached the
  traversal of each level from the head ends and visits elements that are strictly
  increasing in (score, key): \<open>elt_less\<close> compares the scores as \<open>float64\<close> and, when they
  are equal, the keys with \<open>bytes.Compare\<close>. Every element visited on a level is also
  visited on each level below it.
\<close>

theorem ordering_invariant:
  assumes "\<forall>op \<in> set ops. score_ok op"
  shows "\<exists>sl. run_ops (NewSkipList rs) ops = Some sl
     \<and> (\<forall>i < MaxLevel. \<exists>qs. level_list sl i = Some qs
           \<and> sorted_wrt (\<lambda>p q. elt_less (heap sl ! p) (heap sl ! q)) qs
           \<and> (\<forall>j \<le> i. \<exists>rs. level_list sl j = Some rs \<and> set qs \<subseteq> set rs))"
proof -
  have "no_NaN (heap (NewSkipList rs)) []" by (simp add: no_NaN_def)
  from run_ops_inv[OF NewSkipList_inv this assms] obtain sl ps where
    "run_ops (NewSkipList rs) ops = Some sl" "sl_inv sl ps" by blast
  with sl_inv_levels[of sl ps] show ?thesis by blast
qed

theorem ordering_invariant_witness:
  "score_ok (OpInsert ''b'' ''y'' (Finite 2)) \<and> score_ok (OpInsert ''a'' ''x'' NegInf)
   \<and> score_ok (OpInsert ''c'' ''z'' (Finite 1)) \<and> score_ok (OpDelete ''b'' (Finite 2))
   \<and> (\<exists>sl. run_ops (NewSkipList always_promote)
          [OpInsert ''b'' ''y'' (Finite 2), OpInsert ''a'' ''x'' NegInf,
           OpInsert ''c'' ''z'' (Finite 1), OpDelete ''b'' (Finite 2)] = Some sl
     \<and> (\<exists>qs. level_list sl 1 = Some qs
           \<and> sorted_wrt (\<lambda>p q. elt_less (heap sl ! p) (heap sl ! q)) qs
           \<and> (\<exists>rs. level_list sl 0 = Some rs \<and> set qs \<subseteq> set rs)))"
proof -
  let ?ops = "[OpInsert ''b'' ''y'' (Finite 2), OpInsert ''a'' ''x'' NegInf,
           OpInsert ''c'' ''z'' (Finite 1), OpDelete ''b'' (Finite 2)]"
  have a: "(1 :: nat) < MaxLevel" by (simp add: MaxLevel_def)
  have ok: "\<forall>op \<in> set ?ops. score_ok op" by simp
  from ordering_invariant[OF ok, of always_promote]
  obtain sl where r: "run_ops (NewSkipList always_promote) ?ops = Some sl"
    and l: "\<forall>i < MaxLevel. \<exists>qs. level_list sl i = Some qs
           \<and> sorted_wrt (\<lambda>p q. elt_less (heap sl ! p) (heap sl ! q)) qs
           \<and> (\<forall>j \<le> i. \<exists>rs. level_list sl j = Some rs \<and> set qs \<subseteq> set rs)" by blast
  from l a obtain qs where q: "level_list sl 1 = Some qs"
    "sorted_wrt (\<lambda>p q. elt_less (heap sl ! p) (heap sl ! q)) qs"
    "\<forall>j \<le> 1. \<exists>rs. level_list sl j = Some rs \<and> set qs \<subseteq> set rs" by blast
  from q(3) obtain rs where "level_list sl 0 = Some rs" "set qs \<subseteq> set rs" by blast
  with r q(1,2) show ?thesis by auto
qed

text \<open>
  C6 (Range semantics). The claim speaks of every list and every \<open>minScore\<close>. With
  \<open>minScore\<close> = NaN the descent never advances (no score is \<open><\<close> NaN) and the collection
  starts at the first element: on the list a:1, b:2, \<open>Range(NaN, 10, 0)\<close> returns both
  elements, though no score lies in [NaN, 10]. And on the list k:NaN, b:5, reached by
  \<open>Insert(b, y, 5)\<close> and \<open>Insert(k, v, NaN)\<close>, \<open>Range(0, 10, 0)\<close> stops at the first element
  and returns nothing, though the score of b lies in [0, 10].
\<close>

theorem Range_counterexample:
  "Range sl_two NaN (Finite 10) 0 = Some [1, 2]
   \<and> level_list sl_two 0 = Some [1, 2]
   \<and> Score (heap sl_two ! 1) = Finite 1 \<and> Score (heap sl_two ! 2) = Finite 2
   \<and> \<not> fle NaN (Finite 1) \<and> \<not> fle NaN (Finite 2)
   \<and> (case run_ops (NewSkipList never_promote)
           [OpInsert ''b'' ''y'' (Finite 5), OpInsert ''k'' ''v'' NaN] of
        None \<Rightarrow> False
      | Some sl \<Rightarrow>
          level_list sl 0 = Some [2, 1]
          \<and> Score (heap sl ! 2) = NaN \<and> Score (heap sl ! 1) = Finite 5
          \<and> fle (Finite 0) (Finite 5) \<and> fle (Finite 5) (Finite 10)
          \<and> Range sl (Finite 0) (Finite 10) 0 = Some [])"
proof -
  have nb: "\<forall>b \<in> set [1, 2 :: nat]. \<not> flt (Score (heap sl_two ! b)) NaN" by simp
  have na: "\<forall>a \<in> set ([] :: nat list). flt (Score (heap sl_two ! a)) NaN" by simp
  have e: "[1, 2 :: nat] = [] @ [1, 2]" by simp
  from Range_at[OF sl_inv_shape[OF sl_two_inv] e na nb, of "Finite 10" 0]
  have 1: "Range sl_two NaN (Finite 10) 0 = Some [1, 2]"
    by (simp add: sl_two_scores fle_def)
  from Insert_NaN_second[of never_promote "''b''" "''y''" "Finite 5" "''k''" "''v''"]
  obtain sl1 sl2 where a: "Insert (NewSkipList never_promote) ''b'' ''y'' (Finite 5) = Some (sl1, 1)"
      "Insert sl1 ''k'' ''v'' NaN = Some (sl2, 2)"
    and sh: "sl_shape sl2 [2, 1]"
    and b: "Score (heap sl2 ! 1) = Finite 5" "Score (heap sl2 ! 2) = NaN"
    by blast
  have run: "run_ops (NewSkipList never_promote)
           [OpInsert ''b'' ''y'' (Finite 5), OpInsert ''k'' ''v'' NaN] = Some sl2"
    by (simp add: a)
  have nb2: "\<forall>q \<in> set [2, 1 :: nat]. \<not> flt (Score (heap sl2 ! q)) (Finite 0)"
    using b by simp
  have na2: "\<forall>a \<in> set ([] :: nat list). flt (Score (heap sl2 ! a)) (Finite 0)" by simp
  have e2: "[2, 1 :: nat] = [] @ [2, 1]" by simp
  from Range_at[OF sh e2 na2 nb2, of "Finite 10" 0] b
  have 2: "Range sl2 (Finite 0) (Finite 10) 0 = Some []" by simp
  from 1 2 level_list_0[OF sl_two_inv] level_list_at_0[OF sh] b show ?thesis
    unfolding run by (simp add: sl_two_scores fle_def)
qed

text \<open>
  C6 as amended. On a well-formed list whose elements in list order are \<open>ps\<close> (the level-0
  traversal, which is increasing in (score, key)), and for a \<open>minScore\<close> that is not NaN
  (both bounds may be infinite, and \<open>maxScore\<close> may be NaN, which no score is below),
  \<open>Range\<close> returns the elements of \<open>ps\<close> with \<open>minScore \<le> score \<le> maxScore\<close>, in the order
  of \<open>ps\<close>, all of them when \<open>limit \<le> 0\<close> and the first \<open>limit\<close> of them when
  \<open>limit > 0\<close>. \<open>Range\<close> only reads: in the model it yields a result and no list.
\<close>

theorem Range_semantics:
  assumes "sl_inv sl ps" and "minScore \<noteq> NaN"
  shows "Range sl minScore maxScore limit =
     Some (if 0 < limit
           then take (nat limit)
                  (filter (\<lambda>p. fle minScore (Score (heap sl ! p))
                              \<and> fle (Score (heap sl ! p)) maxScore) ps)
           else filter (\<lambda>p. fle minScore (Score (heap sl ! p))
                              \<and> fle (Score (heap sl ! p)) maxScore) ps)
     \<and> level_list sl 0 = Some ps
     \<and> sorted_wrt (\<lambda>p q. elt_less (heap sl ! p) (heap sl ! q)) ps"
  using Range_spec[OF assms] level_list_0[OF assms(1)] sl_inv_sorted[OF assms(1)] by simp

theorem Range_semantics_witness:
  "sl_inv sl_two [1, 2] \<and> Finite 1 \<noteq> NaN \<and> NegInf \<noteq> NaN \<and> Finite (3 / 2) \<noteq> NaN
   \<and> Finite 3 \<noteq> NaN
   \<and> Range sl_two (Finite 1) (Finite 2) 0 = Some [1, 2]
   \<and> Range sl_two NegInf PosInf 1 = Some [1]
   \<and> Range sl_two (Finite (3 / 2)) (Finite 7) 5 = Some [2]
   \<and> Range sl_two (Finite 3) (Finite 7) 0 = Some []
   \<and> Range sl_two (Finite 1) NaN 0 = Some []"
proof -
  have n: "Finite 1 \<noteq> NaN" "NegInf \<noteq> NaN" "Finite (3 / 2) \<noteq> NaN" "Finite 3 \<noteq> NaN"
    by simp_all
  from Range_semantics[OF sl_two_inv n(1), of "Finite 2" 0]
    Range_semantics[OF sl_two_inv n(2), of PosInf 1]
    Range_semantics[OF sl_two_inv n(3), of "Finite 7" 5]
    Range_semantics[OF sl_two_inv n(4), of "Finite 7" 0]
    Range_semantics[OF sl_two_inv n(1), of NaN 0]
    sl_two_inv
  show ?thesis by (simp add: sl_two_scores fle_def)
qed

text \<open>
  C8 (prefix scan). On a store that satisfies its invariant, with elements \<open>ps\<close> in list
  order, \<open>Scan\<close> returns the map made of the entries whose key has the prefix and whose
  TTL entry, if there is one, lies after \<open>now\<close> (\<open>now.Before(expiry)\<close>): all of them when
  \<open>limit \<le> 0\<close>, the first \<open>limit\<close> of them in list order when \<open>limit > 0\<close>. And on a
  new store, after \<open>Set\<close> of \<open>user:1\<close>, \<open>user:2\<close> and \<open>order:1\<close>, with any values and any
  random draws, \<open>Scan(''user:'', 0)\<close> returns exactly the two user entries.
\<close>

theorem Scan_prefix:
  "(kv_inv s ps \<longrightarrow>
      Scan s now prefix limit =
        Some (map_of
          (if 0 < limit
           then take (nat limit)
                  (filter (\<lambda>(k, v). bytes_HasPrefix k prefix
                      \<and> (case ttlData s k of None \<Rightarrow> True | Some expiry \<Rightarrow> now < expiry))
                     (entries (heap (data s)) ps))
           else filter (\<lambda>(k, v). bytes_HasPrefix k prefix
                      \<and> (case ttlData s k of None \<Rightarrow> True | Some expiry \<Rightarrow> now < expiry))
                  (entries (heap (data s)) ps))))
   \<and> (\<exists>s1 s2 s3. Set (NewSkiplistKVStore rs) ''user:1'' X = Some s1
         \<and> Set s1 ''user:2'' Y = Some s2 \<and> Set s2 ''order:1'' Z = Some s3
         \<and> Scan s3 t ''user:'' 0 = Some [''user:1'' \<mapsto> X, ''user:2'' \<mapsto> Y])"
  using Scan_spec[of s ps now prefix limit] Scan_scenario[of rs X Y Z t] by blast

theorem Scan_prefix_witness:
  "kv_inv (NewSkiplistKVStore never_promote) []
   \<and> Scan (NewSkiplistKVStore never_promote) 0 ''user:'' 3 = Some Map.empty
   \<and> (\<exists>s1 s2 s3. Set (NewSkiplistKVStore never_promote) ''user:1'' ''alice'' = Some s1
         \<and> Set s1 ''user:2'' ''bob'' = Some s2 \<and> Set s2 ''order:1'' ''book'' = Some s3
         \<and> Scan s3 0 ''user:'' 0 = Some [''user:1'' \<mapsto> ''alice'', ''user:2'' \<mapsto> ''bob''])"
proof -
  note w = Scan_prefix[of "NewSkiplistKVStore never_promote" "[]" 0 "''user:''" 3 never_promote
      "''alice''" "''bob''" "''book''" 0]
  have k: "kv_inv (NewSkiplistKVStore never_promote) []" by (rule NewSkiplistKVStore_inv)
  from w k have "Scan (NewSkiplistKVStore never_promote) 0 ''user:'' 3 = Some Map.empty"
    by (simp add: entries_def)
  with w k show ?thesis by blast
qed

end
